theory Spec2Isabelle
  imports Complex_Main "HOL-Library.Multiset"
begin

section \<open>Data model of \<^verbatim>\<open>server/ocr_api.py\<close>\<close>

text \<open>
  Python floats are modelled by their value: a rational (every finite double is one) or one
  of the three special values. Only comparisons, \<^verbatim>\<open>min\<close> and \<^verbatim>\<open>max\<close> are
  applied to the confidence, and those are exact on doubles. Delays are kept as exact
  rationals (the rounding of \<^verbatim>\<open>0.1 * 1.5\<close> is not modelled).
\<close>

datatype pyfloat = Finite rat | PosInf | NegInf | NaN

text \<open>What \<^verbatim>\<open>json.loads\<close> returns. A dict keeps its insertion order: an association
  list, keys pairwise distinct.\<close>

datatype json =
    JNull
  | JBool bool
  | JInt int
  | JFloat pyfloat
  | JStr string
  | JList "json list"
  | JObj "(string \<times> json) list"

text \<open>\<^verbatim>\<open>class PageResult(BaseModel)\<close>\<close>

record PageResult =
  page_index :: int
  doc_type :: string
  confidence :: pyfloat
  brief_summary :: "string option"
  key_hints :: "string list option"

text \<open>\<^verbatim>\<open>Dict[str, List[List[int]]]\<close>, in insertion order.\<close>

type_synonym groups = "(string \<times> int list list) list"

text \<open>The exceptions the modelled code can meet. \<open>HTTPException\<close> carries its status code;
  \<open>ClientError\<close> stands for whatever the HTTP client raises at transport level.\<close>

datatype py_error =
    HTTPException nat
  | ClientError
  | AttributeError
  | TypeError
  | ValueError
  | OverflowError
  | KeyError
  | IndexError
  | ValidationError

definition RETRY_MAX :: nat where
  "RETRY_MAX = 4"

definition RETRY_BASE_DELAY :: rat where
  "RETRY_BASE_DELAY = 5 / 4"

definition TYPE_ORDER :: "string list" where
  "TYPE_ORDER =
     [''TaxInvoice'', ''EWayBill'', ''LorryReceipt'', ''PackingList'', ''DeliveryChallan'',
      ''PurchaseOrder'', ''CreditNote'', ''DebitNote'', ''PaymentAdvice'',
      ''ZetwerkInspectionReport'', ''MaterialReport'', ''WeighmentSlip'', ''TestCertificate'',
      ''GatePass'', ''BillOfLading'', ''QuotationProforma'', ''Unknown'']"

subsection \<open>Python built-ins on JSON values\<close>

text \<open>\<^verbatim>\<open>a < b\<close> on floats: every comparison with NaN is false.\<close>

fun float_less :: "pyfloat \<Rightarrow> pyfloat \<Rightarrow> bool" where
  "float_less NaN _ = False"
| "float_less _ NaN = False"
| "float_less (Finite a) (Finite b) = (a < b)"
| "float_less (Finite a) PosInf = True"
| "float_less (Finite a) NegInf = False"
| "float_less PosInf _ = False"
| "float_less NegInf NegInf = False"
| "float_less NegInf _ = True"

text \<open>\<^verbatim>\<open>min(a, b)\<close> keeps its first argument unless the second is smaller,
  \<^verbatim>\<open>max(a, b)\<close> keeps its first argument unless the second is greater.\<close>

definition py_min :: "pyfloat \<Rightarrow> pyfloat \<Rightarrow> pyfloat" where
  "py_min a b = (if float_less b a then b else a)"

definition py_max :: "pyfloat \<Rightarrow> pyfloat \<Rightarrow> pyfloat" where
  "py_max a b = (if float_less a b then b else a)"

text \<open>\<^verbatim>\<open>conf = max(0.0, min(1.0, conf))\<close>\<close>

definition clamp_confidence :: "pyfloat \<Rightarrow> pyfloat" where
  "clamp_confidence conf = py_max (Finite 0) (py_min (Finite 1) conf)"

text \<open>The parsers of numeric strings behind \<^verbatim>\<open>float(s)\<close> and \<^verbatim>\<open>int(s)\<close> are the
  interpreter's; they are parameters of the model (\<open>None\<close>: the string is refused with
  \<^verbatim>\<open>ValueError\<close>).\<close>

record builtins =
  float_of_str :: "string \<Rightarrow> pyfloat option"
  int_of_str :: "string \<Rightarrow> int option"

text \<open>\<^verbatim>\<open>float(v)\<close>. An integer too large for a double raises \<^verbatim>\<open>OverflowError\<close>;
  below that bound the value is kept exactly (rounding to the nearest double is not
  modelled).\<close>

fun py_float :: "builtins \<Rightarrow> json \<Rightarrow> py_error + pyfloat" where
  "py_float b JNull = Inl TypeError"
| "py_float b (JBool t) = Inr (Finite (if t then 1 else 0))"
| "py_float b (JInt n) =
     (if \<bar>n\<bar> \<ge> 2 ^ 1024 - 2 ^ 970 then Inl OverflowError else Inr (Finite (of_int n)))"
| "py_float b (JFloat f) = Inr f"
| "py_float b (JStr s) = (case float_of_str b s of None \<Rightarrow> Inl ValueError | Some f \<Rightarrow> Inr f)"
| "py_float b (JList xs) = Inl TypeError"
| "py_float b (JObj kvs) = Inl TypeError"

text \<open>\<^verbatim>\<open>int(v)\<close>: a float is truncated towards zero.\<close>

fun py_int :: "builtins \<Rightarrow> json \<Rightarrow> py_error + int" where
  "py_int b JNull = Inl TypeError"
| "py_int b (JBool t) = Inr (if t then 1 else 0)"
| "py_int b (JInt n) = Inr n"
| "py_int b (JFloat (Finite r)) = Inr (if r \<ge> 0 then \<lfloor>r\<rfloor> else \<lceil>r\<rceil>)"
| "py_int b (JFloat PosInf) = Inl OverflowError"
| "py_int b (JFloat NegInf) = Inl OverflowError"
| "py_int b (JFloat NaN) = Inl ValueError"
| "py_int b (JStr s) = (case int_of_str b s of None \<Rightarrow> Inl ValueError | Some n \<Rightarrow> Inr n)"
| "py_int b (JList xs) = Inl TypeError"
| "py_int b (JObj kvs) = Inl TypeError"

text \<open>Truth value of a JSON value, as \<^verbatim>\<open>if v:\<close> and \<^verbatim>\<open>v or w\<close> test it.\<close>

fun truthy :: "json \<Rightarrow> bool" where
  "truthy JNull = False"
| "truthy (JBool t) = t"
| "truthy (JInt n) = (n \<noteq> 0)"
| "truthy (JFloat f) = (f \<noteq> Finite 0)"
| "truthy (JStr s) = (s \<noteq> [])"
| "truthy (JList xs) = (xs \<noteq> [])"
| "truthy (JObj kvs) = (kvs \<noteq> [])"

text \<open>\<^verbatim>\<open>obj.get(k, default)\<close>: only a dict has the method.\<close>

definition dict_get :: "json \<Rightarrow> string \<Rightarrow> json \<Rightarrow> py_error + json" where
  "dict_get obj k dflt =
     (case obj of
        JObj kvs \<Rightarrow> Inr (case map_of kvs k of Some v \<Rightarrow> v | None \<Rightarrow> dflt)
      | _ \<Rightarrow> Inl AttributeError)"

text \<open>\<^verbatim>\<open>d[k] = v\<close>: an existing key keeps its place, a new key goes to the end.\<close>

fun dict_set :: "(string \<times> 'v) list \<Rightarrow> string \<Rightarrow> 'v \<Rightarrow> (string \<times> 'v) list" where
  "dict_set [] k v = [(k, v)]"
| "dict_set ((k', v') # d) k v = (if k' = k then (k, v) # d else (k', v') # dict_set d k v)"

text \<open>Sequencing of steps that may raise.\<close>

definition bind_err :: "'e + 'a \<Rightarrow> ('a \<Rightarrow> 'e + 'b) \<Rightarrow> 'e + 'b" where
  "bind_err m f = (case m of Inl e \<Rightarrow> Inl e | Inr x \<Rightarrow> f x)"

section \<open>The per-page workflow: \<^verbatim>\<open>process_page_with_thread\<close>\<close>

text \<open>What the remote service does for one page: whether the two assistants exist, and
  the outcome of each call the workflow awaits, in program order. Each outcome is the
  value returned by the callee or the exception it raises.\<close>

record page_env =
  assistants_available :: bool
  create_thread_outcome :: "py_error + string"
  send_classification_outcome :: "py_error + string"
  run_classification_outcome :: "py_error + json"
  send_extraction_outcome :: "py_error + string"
  run_extraction_outcome :: "py_error + json"

text \<open>\<^verbatim>\<open>if doc_type not in TYPE_ORDER: doc_type = "Unknown"\<close>: only a string equals a
  member of the list.\<close>

definition force_known_type :: "json \<Rightarrow> string" where
  "force_known_type v =
     (case v of
        JStr s \<Rightarrow> if s \<in> set TYPE_ORDER then s else ''Unknown''
      | _ \<Rightarrow> ''Unknown'')"

text \<open>\<^verbatim>\<open>try: conf = float(obj.get("confidence", 0.0))\<close>, \<^verbatim>\<open>except Exception: conf = 0.0\<close>,
  then the clamp.\<close>

definition read_confidence :: "builtins \<Rightarrow> json \<Rightarrow> pyfloat" where
  "read_confidence b obj =
     clamp_confidence
       (case bind_err (dict_get obj ''confidence'' (JFloat (Finite 0))) (py_float b) of
          Inl e \<Rightarrow> Finite 0
        | Inr conf \<Rightarrow> conf)"

text \<open>The result of both early exits: assistants missing, and the \<^verbatim>\<open>except Exception\<close>
  handler.\<close>

definition degraded :: "int \<Rightarrow> PageResult \<times> json" where
  "degraded i =
     (\<lparr>page_index = i, doc_type = ''Unknown'', confidence = Finite 0,
       brief_summary = None, key_hints = None\<rparr>, JObj [])"

text \<open>\<^verbatim>\<open>if isinstance(extraction_data, dict): extraction_data["pages_used"] = [page_index]\<close>\<close>

definition stamp_pages_used :: "int \<Rightarrow> json \<Rightarrow> json" where
  "stamp_pages_used i extraction_data =
     (case extraction_data of
        JObj kvs \<Rightarrow> JObj (dict_set kvs ''pages_used'' (JList [JInt i]))
      | _ \<Rightarrow> extraction_data)"

text \<open>The body of the \<^verbatim>\<open>try\<close> block, every raise a branch.\<close>

definition process_page_try ::
  "builtins \<Rightarrow> page_env \<Rightarrow> int \<Rightarrow> py_error + (PageResult \<times> json)" where
  "process_page_try b env i =
     bind_err (create_thread_outcome env) (\<lambda>thread_id.
     bind_err (send_classification_outcome env) (\<lambda>_.
     bind_err (run_classification_outcome env) (\<lambda>classification_result.
     bind_err (dict_get classification_result ''doc_type'' (JStr ''Unknown'')) (\<lambda>dt.
     bind_err (send_extraction_outcome env) (\<lambda>_.
     bind_err (run_extraction_outcome env) (\<lambda>extraction_result.
     bind_err (dict_get classification_result ''page_index'' (JInt i)) (\<lambda>pi.
     bind_err (py_int b pi) (\<lambda>pi'.
       Inr (\<lparr>page_index = pi', doc_type = force_known_type dt,
             confidence = read_confidence b classification_result,
             brief_summary = None, key_hints = None\<rparr>,
            stamp_pages_used i extraction_result)))))))))"

definition process_page_with_thread ::
  "builtins \<Rightarrow> page_env \<Rightarrow> int \<Rightarrow> PageResult \<times> json" where
  "process_page_with_thread b env i =
     (if \<not> assistants_available env then degraded i
      else case process_page_try b env i of
             Inl e \<Rightarrow> degraded i
           | Inr r \<Rightarrow> r)"

text \<open>The fan-out of \<^verbatim>\<open>ocr_endpoint\<close>: one task per page, \<^verbatim>\<open>asyncio.gather\<close>
  returns the results in the order of the tasks it was given. \<open>envs ! i\<close> is what the
  remote service does for the task of page \<open>i\<close>.\<close>

definition gather_pages :: "builtins \<Rightarrow> page_env list \<Rightarrow> (PageResult \<times> json) list" where
  "gather_pages b envs =
     map (\<lambda>i. process_page_with_thread b (envs ! i) (int i)) [0..<length envs]"

definition page_results :: "builtins \<Rightarrow> page_env list \<Rightarrow> PageResult list" where
  "page_results b envs = map fst (gather_pages b envs)"

definition extraction_data_per_page :: "builtins \<Rightarrow> page_env list \<Rightarrow> json list" where
  "extraction_data_per_page b envs = map snd (gather_pages b envs)"

section \<open>The chat-completions path: \<^verbatim>\<open>classify_pages\<close>\<close>

text \<open>The field validation of \<^verbatim>\<open>PageResult\<close> for the two optional fields is the model
  library's; it is a parameter.\<close>

record validators =
  validate_summary :: "json \<Rightarrow> py_error + string option"
  validate_hints :: "json \<Rightarrow> py_error + string list option"

text \<open>\<^verbatim>\<open>_one(i)\<close>, given what \<^verbatim>\<open>openai_json_response\<close> returned or raised.\<close>

definition classify_one ::
  "builtins \<Rightarrow> validators \<Rightarrow> int \<Rightarrow> py_error + json \<Rightarrow> py_error + PageResult" where
  "classify_one b v i outcome =
     bind_err outcome (\<lambda>obj.
       let dt = (case obj of
                   JObj kvs \<Rightarrow> (case map_of kvs ''doc_type'' of Some x \<Rightarrow> x | None \<Rightarrow> JNull)
                 | _ \<Rightarrow> JNull)
       in
       bind_err (dict_get obj ''page_index'' (JInt i)) (\<lambda>pi.
       bind_err (py_int b (if truthy pi then pi else JInt i)) (\<lambda>pi'.
       bind_err (dict_get obj ''brief_summary'' JNull) (\<lambda>bs.
       bind_err (dict_get obj ''key_hints'' JNull) (\<lambda>kh.
       bind_err (validate_summary v bs) (\<lambda>bs'.
       bind_err (validate_hints v kh) (\<lambda>kh'.
         Inr \<lparr>page_index = pi', doc_type = force_known_type dt,
              confidence = read_confidence b obj,
              brief_summary = bs', key_hints = kh'\<rparr>)))))))"

text \<open>\<open>0 \<le> conf \<le> 1\<close> on floats.\<close>

definition in_unit_interval :: "pyfloat \<Rightarrow> bool" where
  "in_unit_interval f = (case f of Finite r \<Rightarrow> 0 \<le> r \<and> r \<le> 1 | _ \<Rightarrow> False)"

text \<open>Concrete parameters for the examples: numeric strings are refused, the optional
  fields accept null and (lists of) strings.\<close>

definition no_str_numbers :: builtins where
  "no_str_numbers = \<lparr>float_of_str = (\<lambda>s. None), int_of_str = (\<lambda>s. None)\<rparr>"

fun strings_of :: "json list \<Rightarrow> string list option" where
  "strings_of [] = Some []"
| "strings_of (JStr s # js) = map_option (Cons s) (strings_of js)"
| "strings_of (j # js) = None"

definition strict_validators :: validators where
  "strict_validators =
     \<lparr>validate_summary =
        (\<lambda>j. case j of JNull \<Rightarrow> Inr None | JStr s \<Rightarrow> Inr (Some s) | _ \<Rightarrow> Inl ValidationError),
      validate_hints =
        (\<lambda>j. case j of
               JNull \<Rightarrow> Inr None
             | JList js \<Rightarrow> (case strings_of js of
                             Some ss \<Rightarrow> Inr (Some ss)
                           | None \<Rightarrow> Inl ValidationError)
             | _ \<Rightarrow> Inl ValidationError)\<rparr>"

section \<open>Grouping: \<^verbatim>\<open>chunk_consecutive_by_type\<close>\<close>

text \<open>\<^verbatim>\<open>groups.setdefault(cur_type, []).append(cur_chunk)\<close>: a new key goes to the end
  of the dict, an existing key keeps its place and gets the chunk appended to its list.\<close>

fun setdefault_append :: "groups \<Rightarrow> string \<Rightarrow> int list \<Rightarrow> groups" where
  "setdefault_append [] k c = [(k, [c])]"
| "setdefault_append ((k', v) # g) k c =
     (if k' = k then (k', v @ [c]) # g else (k', v) # setdefault_append g k c)"

text \<open>The loop \<^verbatim>\<open>for p in pages[1:]\<close> with its three variables.\<close>

fun chunk_loop ::
  "groups \<Rightarrow> string \<Rightarrow> int list \<Rightarrow> PageResult list \<Rightarrow> groups \<times> string \<times> int list" where
  "chunk_loop g cur_type cur_chunk [] = (g, cur_type, cur_chunk)"
| "chunk_loop g cur_type cur_chunk (p # ps) =
     (if doc_type p = cur_type
      then chunk_loop g cur_type (cur_chunk @ [page_index p]) ps
      else chunk_loop (setdefault_append g cur_type cur_chunk) (doc_type p) [page_index p] ps)"

definition chunk_consecutive_by_type :: "PageResult list \<Rightarrow> groups" where
  "chunk_consecutive_by_type pages =
     (case pages of
        [] \<Rightarrow> []
      | p0 # rest \<Rightarrow>
          (case chunk_loop [] (doc_type p0) [page_index p0] rest of
             (g, cur_type, cur_chunk) \<Rightarrow> setdefault_append g cur_type cur_chunk))"

text \<open>\<^verbatim>\<open>pages_flat = [i for span in spans for i in span]\<close>\<close>

definition pages_flat :: "int list list \<Rightarrow> int list" where
  "pages_flat spans = concat spans"

text \<open>The spans of all emitted groups, in the order \<^verbatim>\<open>grouped_spans.items()\<close> yields them.\<close>

definition emitted_indices :: "groups \<Rightarrow> int list" where
  "emitted_indices g = concat (map (\<lambda>(t, spans). pages_flat spans) g)"

subsection \<open>The specification's runs\<close>

text \<open>The maximal runs of consecutive pages of equal type, written from the
  specification's words: a page joins the run that follows it when the types agree,
  and starts a run of its own otherwise.\<close>

fun runs :: "PageResult list \<Rightarrow> (string \<times> int list) list" where
  "runs [] = []"
| "runs (p # ps) =
     (case runs ps of
        [] \<Rightarrow> [(doc_type p, [page_index p])]
      | (t, c) # rs \<Rightarrow>
          if t = doc_type p then (t, page_index p # c) # rs
          else (doc_type p, [page_index p]) # (t, c) # rs)"

text \<open>Adjacent runs differ in type.\<close>

fun adjacent_differ :: "(string \<times> int list) list \<Rightarrow> bool" where
  "adjacent_differ (r1 # r2 # rs) = (fst r1 \<noteq> fst r2 \<and> adjacent_differ (r2 # rs))"
| "adjacent_differ _ = True"

text \<open>The first occurrence of every element, in order.\<close>

fun first_occurrences :: "'a list \<Rightarrow> 'a list" where
  "first_occurrences [] = []"
| "first_occurrences (x # xs) = x # filter (\<lambda>y. y \<noteq> x) (first_occurrences xs)"

definition mk_page :: "int \<Rightarrow> string \<Rightarrow> PageResult" where
  "mk_page i t = \<lparr>page_index = i, doc_type = t, confidence = Finite 1,
                 brief_summary = None, key_hints = None\<rparr>"

text \<open>Two auxiliary functions for the proofs: \<open>join_run\<close> puts a run in progress in
  front of a list of runs, \<open>collect\<close> files a list of runs into the dict one by one.\<close>

definition join_run :: "string \<Rightarrow> int list \<Rightarrow> (string \<times> int list) list \<Rightarrow> (string \<times> int list) list" where
  "join_run t c rs = (case rs of [] \<Rightarrow> [(t, c)]
      | (t', c') # rs' \<Rightarrow> if t' = t then (t, c @ c') # rs' else (t, c) # (t', c') # rs')"

fun collect :: "(string \<times> int list) list \<Rightarrow> groups \<Rightarrow> groups" where
  "collect [] g = g"
| "collect ((t, c) # rs) g = collect rs (setdefault_append g t c)"

section \<open>The group-level extraction: \<^verbatim>\<open>extract_for_group\<close>\<close>

text \<open>\<open>has_schema\<close>: the schema table has an entry for the type; \<open>n_images\<close>: the length
  of \<^verbatim>\<open>b64_images\<close>, which \<^verbatim>\<open>make_user_parts_for_pages\<close> indexes with every page
  index; \<open>outcome\<close>: what \<^verbatim>\<open>openai_json_response\<close> returned or raised.\<close>

definition extract_for_group ::
  "bool \<Rightarrow> int list list \<Rightarrow> nat \<Rightarrow> py_error + json \<Rightarrow> py_error + json" where
  "extract_for_group has_schema page_spans n_images outcome =
     (if \<not> has_schema
      then Inr (JObj [(''document_type'', JStr ''Unknown''),
                      (''pages_used'', JList (map JInt (pages_flat page_spans)))])
      else if \<exists>idx \<in> set (pages_flat page_spans). \<not> (- int n_images \<le> idx \<and> idx < int n_images)
      then Inl IndexError
      else bind_err outcome (\<lambda>obj.
        Inr (case obj of
               JObj kvs \<Rightarrow>
                 if ''pages_used'' \<in> fst ` set kvs then obj
                 else JObj (dict_set kvs ''pages_used'' (JList (map JInt (pages_flat page_spans))))
             | _ \<Rightarrow> obj)))"

section \<open>Example environments\<close>

text \<open>A remote service that answers every call of a page, with the given classification
  and extraction replies; and one that cannot be reached at all.\<close>

definition example_env :: "json \<Rightarrow> json \<Rightarrow> page_env" where
  "example_env cls ext =
     \<lparr>assistants_available = True,
      create_thread_outcome = Inr ''thread_1'',
      send_classification_outcome = Inr ''msg_1'',
      run_classification_outcome = Inr cls,
      send_extraction_outcome = Inr ''msg_2'',
      run_extraction_outcome = Inr ext\<rparr>"

definition unreachable_env :: page_env where
  "unreachable_env =
     \<lparr>assistants_available = True,
      create_thread_outcome = Inl (HTTPException 502),
      send_classification_outcome = Inl (HTTPException 502),
      run_classification_outcome = Inl (HTTPException 502),
      send_extraction_outcome = Inl (HTTPException 502),
      run_extraction_outcome = Inl (HTTPException 502)\<rparr>"

section \<open>Merging: the group loop of \<^verbatim>\<open>ocr_endpoint\<close> and \<^verbatim>\<open>ocr_stream_endpoint\<close>\<close>

text \<open>\<^verbatim>\<open>xs[i]\<close>: a negative index counts from the end.\<close>

definition py_position :: "'a list \<Rightarrow> int \<Rightarrow> py_error + nat" where
  "py_position xs i =
     (if 0 \<le> i \<and> i < int (length xs) then Inr (nat i)
      else if i < 0 \<and> - int (length xs) \<le> i then Inr (nat (int (length xs) + i))
      else Inl IndexError)"

text \<open>
  The merge loop stores the page's own value object in the accumulator
  (\<^verbatim>\<open>combined_extraction_data[key] = value\<close>) and later extends that object in place
  (\<^verbatim>\<open>combined_extraction_data[key].extend(value)\<close>): a list in the accumulator is the very
  list the page's record holds. The per-page records are therefore a store the loop
  writes to, and an accumulator entry is either a value no one mutates, or a reference
  \<open>ListOf q\<close> to the list that the record of page \<open>q\<close> holds under the same key.
\<close>

datatype cell = Val json | ListOf nat

type_synonym store = "json list"
type_synonym combined = "(string \<times> cell) list"

text \<open>The present contents of the list that page \<open>q\<close> holds under \<open>k\<close>, and
  \<^verbatim>\<open>.extend(ys)\<close> on it.\<close>

definition page_list :: "store \<Rightarrow> nat \<Rightarrow> string \<Rightarrow> json list" where
  "page_list E q k =
     (case E ! q of
        JObj kvs \<Rightarrow> (case map_of kvs k of Some (JList xs) \<Rightarrow> xs | _ \<Rightarrow> [])
      | _ \<Rightarrow> [])"

definition extend_page_list :: "store \<Rightarrow> nat \<Rightarrow> string \<Rightarrow> json list \<Rightarrow> store" where
  "extend_page_list E q k ys =
     E[q := (case E ! q of
               JObj kvs \<Rightarrow> JObj (dict_set kvs k (JList (page_list E q k @ ys)))
             | v \<Rightarrow> v)]"

text \<open>What \<^verbatim>\<open>combined_extraction_data[key] = value\<close> stores for a value of page \<open>q\<close>.\<close>

definition cell_of :: "nat \<Rightarrow> json \<Rightarrow> cell" where
  "cell_of q v = (case v of JList xs \<Rightarrow> ListOf q | _ \<Rightarrow> Val v)"

text \<open>The body of \<^verbatim>\<open>for key, value in page_data.items()\<close>: the three branches of the
  \<^verbatim>\<open>if\<close>/\<^verbatim>\<open>elif\<close> chain, and no change otherwise.\<close>

fun merge_field :: "nat \<Rightarrow> store \<times> combined \<Rightarrow> string \<times> json \<Rightarrow> store \<times> combined" where
  "merge_field q (E, c) (key, v) =
     (case map_of c key of
        None \<Rightarrow> (E, c @ [(key, cell_of q v)])
      | Some (ListOf q') \<Rightarrow>
          (case v of JList ys \<Rightarrow> (extend_page_list E q' key ys, c) | _ \<Rightarrow> (E, c))
      | Some (Val (JList xs)) \<Rightarrow>
          (case v of JList ys \<Rightarrow> (E, dict_set c key (Val (JList (xs @ ys)))) | _ \<Rightarrow> (E, c))
      | Some (Val JNull) \<Rightarrow>
          (if v \<noteq> JNull then (E, dict_set c key (cell_of q v)) else (E, c))
      | Some (Val a) \<Rightarrow> (E, c))"

text \<open>The body of \<^verbatim>\<open>for page_idx in pages_flat\<close>. The guard is
  \<^verbatim>\<open>page_idx < len(extraction_data_per_page) and extraction_data_per_page[page_idx]\<close>;
  a record that is true but not a dict has no \<^verbatim>\<open>.items()\<close>.\<close>

definition merge_page :: "store \<times> combined \<Rightarrow> int \<Rightarrow> py_error + store \<times> combined" where
  "merge_page s page_idx =
     (if \<not> page_idx < int (length (fst s)) then Inr s
      else bind_err (py_position (fst s) page_idx) (\<lambda>q.
        let page_data = fst s ! q in
        if \<not> truthy page_data then Inr s
        else (case page_data of
                JObj kvs \<Rightarrow> Inr (foldl (merge_field q) s kvs)
              | _ \<Rightarrow> Inl AttributeError)))"

fun combine_pages :: "store \<times> combined \<Rightarrow> int list \<Rightarrow> py_error + store \<times> combined" where
  "combine_pages s [] = Inr s"
| "combine_pages s (page_idx # rest) = bind_err (merge_page s page_idx) (\<lambda>s'. combine_pages s' rest)"

text \<open>The whole merge of one group, ending with
  \<^verbatim>\<open>combined_extraction_data["pages_used"] = pages_flat\<close>.\<close>

definition combine_group :: "store \<Rightarrow> int list \<Rightarrow> py_error + store \<times> combined" where
  "combine_group E flat =
     bind_err (combine_pages (E, []) flat) (\<lambda>(E', c).
       Inr (E', dict_set c ''pages_used'' (Val (JList (map JInt flat)))))"

text \<open>The accumulator as a JSON object, read against the store (what
  \<^verbatim>\<open>final_response.dict()\<close> serialises).\<close>

definition resolve :: "store \<Rightarrow> combined \<Rightarrow> (string \<times> json) list" where
  "resolve E c = map (\<lambda>(k, x). (k, case x of Val v \<Rightarrow> v | ListOf q \<Rightarrow> JList (page_list E q k))) c"

definition resolved :: "py_error + store \<times> combined \<Rightarrow> py_error + (string \<times> json) list" where
  "resolved r = bind_err r (\<lambda>(E, c). Inr (resolve E c))"

text \<open>\<^verbatim>\<open>class ExtractedGroup(BaseModel)\<close>, its \<^verbatim>\<open>data\<close> as serialised.\<close>

record ExtractedGroup =
  group_type :: string
  page_spans :: "int list list"
  data :: "(string \<times> json) list"

text \<open>\<^verbatim>\<open>for doc_type, spans in grouped_spans.items()\<close> with its guard
  \<^verbatim>\<open>if spans and spans[0]\<close>; the groups keep references into the store until the response
  is serialised.\<close>

fun group_loop :: "store \<Rightarrow> groups \<Rightarrow> py_error + store \<times> (string \<times> int list list \<times> combined) list" where
  "group_loop E [] = Inr (E, [])"
| "group_loop E ((t, spans) # rest) =
     (if spans \<noteq> [] \<and> hd spans \<noteq> []
      then bind_err (combine_group E (pages_flat spans)) (\<lambda>(E', c).
           bind_err (group_loop E' rest) (\<lambda>(E'', gs). Inr (E'', (t, spans, c) # gs)))
      else group_loop E rest)"

definition grouped_results :: "PageResult list \<Rightarrow> store \<Rightarrow> py_error + ExtractedGroup list" where
  "grouped_results prs E =
     bind_err (group_loop E (chunk_consecutive_by_type prs)) (\<lambda>(E', gs).
       Inr (map (\<lambda>(t, spans, c). \<lparr>group_type = t, page_spans = spans, data = resolve E' c\<rparr>) gs))"

subsection \<open>The specification's merge\<close>

text \<open>Written from the specification's words, on values: a field absent from the
  accumulator takes the page's value; two lists are concatenated; a null accumulator
  value is replaced by a non-null page value; otherwise the accumulator's value stays.\<close>

definition merge_value :: "json option \<Rightarrow> json \<Rightarrow> json" where
  "merge_value a v =
     (case a of
        None \<Rightarrow> v
      | Some (JList xs) \<Rightarrow> (case v of JList ys \<Rightarrow> JList (xs @ ys) | _ \<Rightarrow> JList xs)
      | Some JNull \<Rightarrow> (if v \<noteq> JNull then v else JNull)
      | Some x \<Rightarrow> x)"

definition merge_record :: "(string \<times> json) list \<Rightarrow> (string \<times> json) list \<Rightarrow> (string \<times> json) list" where
  "merge_record acc page = foldl (\<lambda>a (k, v). dict_set a k (merge_value (map_of a k) v)) acc page"

definition merge_records :: "(string \<times> json) list list \<Rightarrow> (string \<times> json) list" where
  "merge_records pages = foldl merge_record [] pages"

text \<open>The record of page \<open>i\<close> in the store, and the merged record of a group with
  \<^verbatim>\<open>pages_used\<close> set to the flattened span.\<close>

definition record_of :: "store \<Rightarrow> int \<Rightarrow> (string \<times> json) list" where
  "record_of E i = (case E ! nat i of JObj kvs \<Rightarrow> kvs | _ \<Rightarrow> [])"

definition merge_group :: "store \<Rightarrow> int list \<Rightarrow> (string \<times> json) list" where
  "merge_group E flat =
     dict_set (merge_records (map (record_of E) flat)) ''pages_used'' (JList (map JInt flat))"

text \<open>Auxiliary notions for the proofs: one step of the specification's merge, the value
  of a cell, the invariant of the loop (pages outside \<open>V\<close> are untouched, every reference
  points to a list of a visited page or of the current page \<open>p\<close> at a key already handled),
  and accumulators whose references stay within a set of pages.\<close>

definition spec_step :: "(string \<times> json) list \<Rightarrow> string \<times> json \<Rightarrow> (string \<times> json) list" where
  "spec_step a kv = dict_set a (fst kv) (merge_value (map_of a (fst kv)) (snd kv))"

definition resolve_cell :: "store \<Rightarrow> string \<Rightarrow> cell \<Rightarrow> json" where
  "resolve_cell E k x = (case x of Val v \<Rightarrow> v | ListOf q \<Rightarrow> JList (page_list E q k))"

definition merge_inv :: "store \<Rightarrow> nat set \<Rightarrow> nat \<Rightarrow> string set \<Rightarrow> store \<times> combined \<Rightarrow> bool" where
  "merge_inv E0 V p done s =
     (length (fst s) = length E0 \<and>
      (\<forall>q. q \<notin> V \<longrightarrow> fst s ! q = E0 ! q) \<and>
      distinct (map fst (snd s)) \<and>
      (\<forall>k q. (k, ListOf q) \<in> set (snd s) \<longrightarrow>
         q < length E0 \<and> (q \<in> V \<or> (q = p \<and> k \<in> done)) \<and>
         (\<exists>kvs xs. fst s ! q = JObj kvs \<and> map_of kvs k = Some (JList xs))))"

definition cells_within :: "nat set \<Rightarrow> combined \<Rightarrow> bool" where
  "cells_within V c = (\<forall>k q. (k, ListOf q) \<in> set c \<longrightarrow> q \<in> V)"

section \<open>Replies: the fallback chain of the parsers\<close>

text \<open>A Python \<^verbatim>\<open>str\<close> is a sequence of code points; the raw reply texts are lists
  of code points, and \<open>codepoints\<close> writes one from an ASCII literal.\<close>

type_synonym pystr = "nat list"

definition codepoints :: "string \<Rightarrow> pystr" where
  "codepoints s = map of_char s"

text \<open>\<^verbatim>\<open>cleaned = content.strip().lstrip(BOM)\<close>, the byte-order mark being the code
  point FEFF; \<^verbatim>\<open>strip\<close> removes the characters for which \<^verbatim>\<open>str.isspace\<close> holds, the
  same characters the pattern class for whitespace matches.\<close>

definition BOM :: nat where
  "BOM = 65279"

definition is_space :: "nat \<Rightarrow> bool" where
  "is_space c =
     (c \<in> set [9, 10, 11, 12, 13, 28, 29, 30, 31, 32, 133, 160, 5760,
                8192, 8193, 8194, 8195, 8196, 8197, 8198, 8199, 8200, 8201, 8202,
                8232, 8233, 8239, 8287, 12288])"

definition py_strip :: "pystr \<Rightarrow> pystr" where
  "py_strip s = rev (dropWhile is_space (rev (dropWhile is_space s)))"

definition cleaned :: "pystr \<Rightarrow> pystr" where
  "cleaned text = dropWhile (\<lambda>c. c = BOM) (py_strip text)"

text \<open>
  The search \<^verbatim>\<open>re.search(pattern, content, re.DOTALL)\<close> and its \<^verbatim>\<open>group(1)\<close>. The
  pattern reads: three backquotes, an optional \<^verbatim>\<open>json\<close>, any whitespace, then the group,
  which runs from an opening brace over as few characters as possible to a closing brace,
  then any whitespace and three backquotes. Code points: backquote 96, opening brace 123,
  closing brace 125. \<open>closes s\<close>: whitespace and three backquotes are at the front of
  \<open>s\<close>; \<open>lazy_body\<close>: the shortest continuation of the group after its opening brace;
  \<open>match_here\<close>: a match that starts at the front of the text; \<open>search_fenced\<close>: the
  leftmost match.
\<close>

definition FENCE :: pystr where
  "FENCE = [96, 96, 96]"

definition JSON_TAG :: pystr where
  "JSON_TAG = [106, 115, 111, 110]"

definition closes :: "pystr \<Rightarrow> bool" where
  "closes s = (take 3 (dropWhile is_space s) = FENCE)"

fun lazy_body :: "pystr \<Rightarrow> pystr option" where
  "lazy_body [] = None"
| "lazy_body (c # s) =
     (if c = 125 \<and> closes s then Some [c] else map_option ((#) c) (lazy_body s))"

definition match_here :: "pystr \<Rightarrow> pystr option" where
  "match_here s =
     (if take 3 s = FENCE
      then (case dropWhile is_space
                   (if take 4 (drop 3 s) = JSON_TAG then drop 7 s else drop 3 s) of
              [] \<Rightarrow> None
            | c # rest \<Rightarrow> if c = 123 then map_option ((#) c) (lazy_body rest) else None)
      else None)"

fun search_fenced :: "pystr \<Rightarrow> pystr option" where
  "search_fenced [] = None"
| "search_fenced (c # s) =
     (case match_here (c # s) of Some g \<Rightarrow> Some g | None \<Rightarrow> search_fenced s)"

text \<open>The fallback chain of \<^verbatim>\<open>run_thread_with_assistant\<close> and of
  \<^verbatim>\<open>openai_json_response\<close>. \<open>loads\<close> is \<^verbatim>\<open>json.loads\<close>, a parameter; \<open>None\<close> stands
  for its \<^verbatim>\<open>JSONDecodeError\<close>. \<open>None\<close> as result: no attempt succeeded.\<close>

definition parse_reply :: "(pystr \<Rightarrow> json option) \<Rightarrow> pystr \<Rightarrow> json option" where
  "parse_reply loads text =
     (case loads text of
        Some v \<Rightarrow> Some v
      | None \<Rightarrow>
          (case loads (cleaned text) of
             Some v \<Rightarrow> Some v
           | None \<Rightarrow>
               (case search_fenced text of
                  Some g \<Rightarrow> loads g
                | None \<Rightarrow> None)))"

text \<open>The loop over the text blocks of the run's assistant messages, newest message first:
  the first block that parses is returned, and when none does the function raises.\<close>

fun first_valid_reply :: "(pystr \<Rightarrow> json option) \<Rightarrow> pystr list \<Rightarrow> py_error + json" where
  "first_valid_reply loads [] = Inl (HTTPException 502)"
| "first_valid_reply loads (content # rest) =
     (case parse_reply loads content of
        Some v \<Rightarrow> Inr v
      | None \<Rightarrow> first_valid_reply loads rest)"

text \<open>For the examples: the behaviour of a JSON parser on the texts it is asked about,
  when a single one of them is a JSON document.\<close>

definition loads_just :: "pystr \<Rightarrow> json \<Rightarrow> pystr \<Rightarrow> json option" where
  "loads_just doc v s = (if s = doc then Some v else None)"

section \<open>Retries: \<^verbatim>\<open>create_openai_thread\<close> and \<^verbatim>\<open>openai_json_response\<close>\<close>

text \<open>What a call does besides returning: the requests it sends (numbered by the loop
  variable) and the delays it sleeps, in order.\<close>

datatype effect = Request nat | Sleep rat

text \<open>How one iteration of a retry loop ends: it leaves the function with a value, it goes
  on to the next iteration (after a sleep, or without one when the body falls through),
  or it raises out of the function.\<close>

datatype 'a step = Return 'a | Continue "rat option" | Raise py_error

text \<open>\<^verbatim>\<open>response.status in [429, 500, 502, 503, 504]\<close> and
  \<^verbatim>\<open>RETRY_BASE_DELAY * (2 ** attempt)\<close>\<close>

definition TRANSIENT :: "nat list" where
  "TRANSIENT = [429, 500, 502, 503, 504]"

definition retry_delay :: "nat \<Rightarrow> rat" where
  "retry_delay attempt = RETRY_BASE_DELAY * 2 ^ attempt"

text \<open>\<^verbatim>\<open>for attempt in ...\<close> followed by \<^verbatim>\<open>raise HTTPException(status_code=502, ...)\<close>
  (after the loop, or in its \<^verbatim>\<open>else\<close> clause).\<close>

fun retry_loop :: "(nat \<Rightarrow> 'a step) \<Rightarrow> nat list \<Rightarrow> effect list \<Rightarrow> (py_error + 'a) \<times> effect list" where
  "retry_loop body [] tr = (Inl (HTTPException 502), tr)"
| "retry_loop body (attempt # rest) tr =
     (case body attempt of
        Return v \<Rightarrow> (Inr v, tr @ [Request attempt])
      | Continue None \<Rightarrow> retry_loop body rest (tr @ [Request attempt])
      | Continue (Some d) \<Rightarrow> retry_loop body rest (tr @ [Request attempt, Sleep d])
      | Raise e \<Rightarrow> (Inl e, tr @ [Request attempt]))"

text \<open>What one request yields: the client raises, or a response arrives with its status
  and, when its body is a JSON object with an \<^verbatim>\<open>id\<close>, that id.\<close>

datatype attempt = Raises | Response nat "string option"

text \<open>The handler \<^verbatim>\<open>except Exception as e\<close> of the request loops: sleep and
  \<^verbatim>\<open>continue\<close> before the last attempt, raise 502 at the last.\<close>

definition except_handler :: "nat \<Rightarrow> 'a step" where
  "except_handler attempt =
     (if attempt < RETRY_MAX - 1 then Continue (Some (retry_delay attempt))
      else Raise (HTTPException 502))"

text \<open>One iteration of the loop of \<^verbatim>\<open>create_openai_thread\<close>. Everything raised inside
  the \<^verbatim>\<open>try\<close> goes to the handler: the transport's exceptions, a body without
  \<^verbatim>\<open>id\<close>, and the \<^verbatim>\<open>HTTPException\<close> that the last branch raises for any other
  status. A transient status at the last attempt falls through to the end of the loop.\<close>

definition thread_attempt :: "nat \<Rightarrow> attempt \<Rightarrow> string step" where
  "thread_attempt attempt a =
     (case a of
        Raises \<Rightarrow> except_handler attempt
      | Response status body \<Rightarrow>
          if status = 200 \<or> status = 201
          then (case body of Some thread_id \<Rightarrow> Return thread_id | None \<Rightarrow> except_handler attempt)
          else if status \<in> set TRANSIENT
          then (if attempt < RETRY_MAX - 1 then Continue (Some (retry_delay attempt))
                else Continue None)
          else except_handler attempt)"

definition create_openai_thread :: "(nat \<Rightarrow> attempt) \<Rightarrow> (py_error + string) \<times> effect list" where
  "create_openai_thread env =
     retry_loop (\<lambda>attempt. thread_attempt attempt (env attempt)) [0..<RETRY_MAX] []"

text \<open>What one call of the chat-completions client yields: it raises for an error status
  of the API or for a failed connection, or it returns the content of the reply.\<close>

datatype completion = ApiError nat | ConnectionError | Content pystr

text \<open>\<^verbatim>\<open>json.dumps({"error": "empty_output"})\<close>, the text used for an empty reply.\<close>

definition EMPTY_OUTPUT :: pystr where
  "EMPTY_OUTPUT =
     [123, 34] @ codepoints ''error'' @ [34, 58, 32, 34] @ codepoints ''empty_output'' @ [34, 125]"

text \<open>One iteration of the loop of \<^verbatim>\<open>openai_json_response\<close>, attempts numbered from
  1: whatever is raised, by the client or by the parse chain, is caught, and the handler
  sleeps \<^verbatim>\<open>RETRY_BASE_DELAY * (2 ** (attempt - 1))\<close> at every attempt.\<close>

definition completion_attempt :: "(pystr \<Rightarrow> json option) \<Rightarrow> nat \<Rightarrow> completion \<Rightarrow> json step" where
  "completion_attempt loads attempt c =
     (case c of
        Content text \<Rightarrow>
          (case parse_reply loads (if text = [] then EMPTY_OUTPUT else text) of
             Some result \<Rightarrow> Return result
           | None \<Rightarrow> Continue (Some (retry_delay (attempt - 1))))
      | _ \<Rightarrow> Continue (Some (retry_delay (attempt - 1))))"

definition openai_json_response ::
  "(pystr \<Rightarrow> json option) \<Rightarrow> (nat \<Rightarrow> completion) \<Rightarrow> (py_error + json) \<times> effect list" where
  "openai_json_response loads env =
     retry_loop (\<lambda>attempt. completion_attempt loads attempt (env attempt)) [1..<RETRY_MAX + 1] []"

text \<open>For the statements: a transient outcome of a request, a failed attempt of the
  completions call, and the effects of a run of failed attempts.\<close>

definition transient :: "attempt \<Rightarrow> bool" where
  "transient a = (case a of Raises \<Rightarrow> True | Response status body \<Rightarrow> status \<in> set TRANSIENT)"

definition failed_completion :: "(pystr \<Rightarrow> json option) \<Rightarrow> completion \<Rightarrow> bool" where
  "failed_completion loads c =
     (case c of
        Content text \<Rightarrow> parse_reply loads (if text = [] then EMPTY_OUTPUT else text) = None
      | _ \<Rightarrow> True)"

definition retries :: "nat \<Rightarrow> nat list \<Rightarrow> effect list" where
  "retries first attempts =
     concat (map (\<lambda>a. [Request a, Sleep (retry_delay (a - first))]) attempts)"

text \<open>Example services: two rate-limit responses and then success; a client error once;
  a client error every time; an authorisation error once; a service that is always
  overloaded.\<close>

definition rate_limited_twice :: "nat \<Rightarrow> attempt" where
  "rate_limited_twice a = (if a < 2 then Response 429 None else Response 200 (Some ''thread_1''))"

definition bad_request_once :: "nat \<Rightarrow> attempt" where
  "bad_request_once a = (if a = 0 then Response 400 None else Response 200 (Some ''thread_1''))"

definition always_bad_request :: "nat \<Rightarrow> attempt" where
  "always_bad_request a = Response 400 None"

definition unauthorized_once :: "nat \<Rightarrow> completion" where
  "unauthorized_once a = (if a = 1 then ApiError 401 else Content [123, 125])"

definition always_overloaded :: "nat \<Rightarrow> completion" where
  "always_overloaded a = ApiError 503"

section \<open>Polling: \<^verbatim>\<open>run_thread_with_assistant\<close>\<close>

text \<open>What one status request yields: it raises, or a response arrives with its HTTP
  status and the \<^verbatim>\<open>status\<close> field of the run.\<close>

datatype poll_attempt = PollRaises | PollResponse nat string

datatype poll_result = Completed | Pending

text \<open>One iteration of the inner loop of the polling. On HTTP 200 a completed run and a
  pending run \<^verbatim>\<open>break\<close> out of the inner loop; for a failed, cancelled or expired run the
  code raises \<^verbatim>\<open>HTTPException\<close> inside the \<^verbatim>\<open>try\<close>, so the handler receives it.\<close>

definition status_attempt :: "nat \<Rightarrow> poll_attempt \<Rightarrow> poll_result step" where
  "status_attempt attempt a =
     (case a of
        PollRaises \<Rightarrow> except_handler attempt
      | PollResponse code status \<Rightarrow>
          if code = 200
          then (if status = ''completed'' then Return Completed
                else if status \<in> set [''failed'', ''cancelled'', ''expired'']
                then except_handler attempt
                else Return Pending)
          else if code \<in> set TRANSIENT \<and> attempt < RETRY_MAX - 1
          then Continue (Some (retry_delay attempt))
          else except_handler attempt)"

text \<open>The polling delay is a Python float, an IEEE double: \<^verbatim>\<open>0.1\<close> is the double
  nearest to one tenth and \<^verbatim>\<open>delay * 1.5\<close> the double nearest to the product. A delay is
  modelled by the rational its double equals. \<open>ulp q\<close> is the spacing of the doubles around
  \<open>q\<close> and \<open>nearest_double q\<close> the double nearest to \<open>q\<close>, ties going to the even
  significand, both for \<open>1/16 \<le> q < 4\<close>, where the delays and their products lie. (The
  retry delays \<open>1.25 \<sqdot> 2\<^sup>a\<close> are doubles themselves.)\<close>

definition ulp :: "rat \<Rightarrow> rat" where
  "ulp q =
     (if q < 1 / 8 then 1 / 2 ^ 56
      else if q < 1 / 4 then 1 / 2 ^ 55
      else if q < 1 / 2 then 1 / 2 ^ 54
      else if q < 1 then 1 / 2 ^ 53
      else if q < 2 then 1 / 2 ^ 52
      else 1 / 2 ^ 51)"

definition round_half_even :: "rat \<Rightarrow> int" where
  "round_half_even x =
     (if x - of_int \<lfloor>x\<rfloor> < 1 / 2 then \<lfloor>x\<rfloor>
      else if 1 / 2 < x - of_int \<lfloor>x\<rfloor> then \<lfloor>x\<rfloor> + 1
      else if even \<lfloor>x\<rfloor> then \<lfloor>x\<rfloor>
      else \<lfloor>x\<rfloor> + 1)"

definition nearest_double :: "rat \<Rightarrow> rat" where
  "nearest_double q = of_int (round_half_even (q / ulp q)) * ulp q"

text \<open>\<^verbatim>\<open>while True\<close>: the loop may run forever, so the model counts its rounds down
  from \<open>fuel\<close> and \<open>None\<close> is "still polling". \<open>env rnd attempt\<close> is what the request of
  that round and attempt yields. A pending round sleeps \<open>delay\<close> and continues with
  \<^verbatim>\<open>min(delay * 1.5, max_delay)\<close>.\<close>

fun poll_loop ::
  "nat \<Rightarrow> (nat \<Rightarrow> nat \<Rightarrow> poll_attempt) \<Rightarrow> nat \<Rightarrow> rat \<Rightarrow> effect list \<Rightarrow>
   ((py_error + unit) \<times> effect list) option" where
  "poll_loop 0 env rnd delay tr = None"
| "poll_loop (Suc fuel) env rnd delay tr =
     (case retry_loop (\<lambda>attempt. status_attempt attempt (env rnd attempt)) [0..<RETRY_MAX] tr of
        (Inl e, tr') \<Rightarrow> Some (Inl e, tr')
      | (Inr Completed, tr') \<Rightarrow> Some (Inr (), tr')
      | (Inr Pending, tr') \<Rightarrow>
          poll_loop fuel env (Suc rnd) (min (nearest_double (delay * (3 / 2))) 2)
            (tr' @ [Sleep delay]))"

definition poll_until_done ::
  "nat \<Rightarrow> (nat \<Rightarrow> nat \<Rightarrow> poll_attempt) \<Rightarrow> ((py_error + unit) \<times> effect list) option" where
  "poll_until_done fuel env = poll_loop fuel env 0 (nearest_double (1 / 10)) []"

text \<open>\<^verbatim>\<open>run_thread_with_assistant\<close>: create the run, poll, then fetch the messages and
  parse the reply. The outcomes of the first and the last stage are given.\<close>

record run_env =
  create_run_outcome :: "py_error + string"
  polls :: "nat \<Rightarrow> nat \<Rightarrow> poll_attempt"
  reply_outcome :: "py_error + json"

definition run_thread_with_assistant :: "nat \<Rightarrow> run_env \<Rightarrow> (py_error + json) option" where
  "run_thread_with_assistant fuel env =
     (case create_run_outcome env of
        Inl e \<Rightarrow> Some (Inl e)
      | Inr run_id \<Rightarrow>
          (case poll_until_done fuel (polls env) of
             None \<Rightarrow> None
           | Some (Inl e, tr) \<Rightarrow> Some (Inl e)
           | Some (Inr u, tr) \<Rightarrow> Some (reply_outcome env)))"

text \<open>For the statements: the delay of round \<open>r\<close>, the statuses that keep the loop
  polling, and the effects of \<open>n\<close> pending rounds from round \<open>r\<close> on.\<close>

fun poll_delay :: "nat \<Rightarrow> rat" where
  "poll_delay 0 = nearest_double (1 / 10)"
| "poll_delay (Suc r) = min (nearest_double (poll_delay r * (3 / 2))) 2"

definition non_terminal :: "string \<Rightarrow> bool" where
  "non_terminal status = (status \<notin> set [''completed'', ''failed'', ''cancelled'', ''expired''])"

definition pending_rounds :: "nat \<Rightarrow> nat \<Rightarrow> effect list" where
  "pending_rounds r n = concat (map (\<lambda>i. [Request 0, Sleep (poll_delay i)]) [r..<r + n])"

text \<open>Example runs: one that has failed, one reported failed and then completed, one that
  stays queued.\<close>

definition always_failed :: "nat \<Rightarrow> nat \<Rightarrow> poll_attempt" where
  "always_failed rnd attempt = PollResponse 200 ''failed''"

definition failed_then_completed :: "nat \<Rightarrow> nat \<Rightarrow> poll_attempt" where
  "failed_then_completed rnd attempt =
     (if attempt = 0 then PollResponse 200 ''failed'' else PollResponse 200 ''completed'')"

definition always_queued :: "nat \<Rightarrow> nat \<Rightarrow> poll_attempt" where
  "always_queued rnd attempt = PollResponse 200 ''queued''"

section \<open>The streaming endpoints\<close>

text \<open>The events of both \<^verbatim>\<open>generate_stream\<close> generators, one constructor for each
  dictionary shape they serialise, and \<open>Done\<close> for the line \<^verbatim>\<open>data: [DONE]\<close>. Durations
  are not modelled. The two \<^verbatim>\<open>complete\<close> events differ: one carries \<^verbatim>\<open>total_pages\<close> and
  \<^verbatim>\<open>processed_pages\<close>, the other \<^verbatim>\<open>final_response.dict()\<close>.\<close>

record OCRResponse =
  num_pages :: nat
  response_pages :: "PageResult list"
  response_groups :: "ExtractedGroup list"

datatype status_message = Started | Rendering | Processing | Found_groups nat | Combining

datatype event =
    Status status_message
  | Progress_render nat
  | Progress_process nat string pyfloat
  | Progress_classify_complete
  | Progress_combine string "int list"
  | Start nat
  | Page_result nat PageResult json
  | Page_error nat py_error
  | Complete_counts nat nat
  | Complete_data OCRResponse
  | Error py_error
  | Done

text \<open>What happens to the uploaded file before the pages are processed:
  \<^verbatim>\<open>file.read()\<close> raises, \<^verbatim>\<open>fitz.open\<close> raises, \<^verbatim>\<open>b64_png_from_page\<close> raises, or the
  pages are rendered, each with what the remote service does for it.\<close>

datatype upload =
    Read_fails py_error
  | Open_fails py_error
  | Render_fails py_error
  | Rendered "page_env list"

fun invalid_pdf :: "upload \<Rightarrow> bool" where
  "invalid_pdf (Open_fails e) = True"
| "invalid_pdf d = False"

text \<open>\<^verbatim>\<open>final_response\<close>, as \<^verbatim>\<open>ocr_endpoint\<close> and the sequential generator build it (the
  timings apart).\<close>

definition final_response :: "builtins \<Rightarrow> page_env list \<Rightarrow> py_error + OCRResponse" where
  "final_response b envs =
     bind_err (grouped_results (page_results b envs) (extraction_data_per_page b envs)) (\<lambda>gs.
       Inr \<lparr>num_pages = length envs, response_pages = page_results b envs,
            response_groups = gs\<rparr>)"

subsection \<open>The sequential generator of \<^verbatim>\<open>/ocr/stream\<close>\<close>

text \<open>The page loop: one page at a time, a \<^verbatim>\<open>progress\<close> event after each.\<close>

definition stream_pages :: "builtins \<Rightarrow> page_env list \<Rightarrow> event list" where
  "stream_pages b envs =
     map (\<lambda>i. case process_page_with_thread b (envs ! i) (int i) of
                 (page_result, extraction_data) \<Rightarrow>
                   Progress_process i (doc_type page_result) (confidence page_result))
       [0..<length envs]"

text \<open>The group loop, with the events yielded so far: the merge of \<^verbatim>\<open>ocr_endpoint\<close>
  repeated in the generator, and a \<^verbatim>\<open>progress\<close> event after each group. An exception
  leaves the loop with the events already yielded.\<close>

fun stream_groups ::
  "store \<Rightarrow> groups \<Rightarrow> (string \<times> int list list \<times> combined) list \<Rightarrow> event list \<Rightarrow>
   event list \<times> (py_error + store \<times> (string \<times> int list list \<times> combined) list)" where
  "stream_groups E [] acc evs = (evs, Inr (E, acc))"
| "stream_groups E ((t, spans) # rest) acc evs =
     (if spans \<noteq> [] \<and> hd spans \<noteq> []
      then (case combine_group E (pages_flat spans) of
              Inl e \<Rightarrow> (evs, Inl e)
            | Inr (E', c) \<Rightarrow>
                stream_groups E' rest (acc @ [(t, spans, c)])
                  (evs @ [Progress_combine t (pages_flat spans)]))
      else stream_groups E rest acc evs)"

text \<open>The generator. The handler of \<^verbatim>\<open>fitz.open\<close> yields an \<^verbatim>\<open>error\<close> event and returns;
  the handler of the whole body yields an \<^verbatim>\<open>error\<close> event and then \<^verbatim>\<open>[DONE]\<close>.\<close>

definition ocr_stream_sequential :: "builtins \<Rightarrow> upload \<Rightarrow> event list" where
  "ocr_stream_sequential b d =
     Status Started #
     (case d of
        Read_fails e \<Rightarrow> [Error e, Done]
      | Open_fails e \<Rightarrow> [Error e]
      | Render_fails e \<Rightarrow> [Status Rendering, Error e, Done]
      | Rendered envs \<Rightarrow>
          [Status Rendering, Progress_render (length envs), Status Processing] @
          stream_pages b envs @
          [Progress_classify_complete,
           Status (Found_groups (length (chunk_consecutive_by_type (page_results b envs)))),
           Status Combining] @
          (case stream_groups (extraction_data_per_page b envs)
                  (chunk_consecutive_by_type (page_results b envs)) [] [] of
             (evs, Inl e) \<Rightarrow> evs @ [Error e, Done]
           | (evs, Inr (E', gs)) \<Rightarrow>
               evs @
               [Complete_data
                  \<lparr>num_pages = length envs,
                   response_pages = page_results b envs,
                   response_groups = map (\<lambda>(t, spans, c).
                     \<lparr>group_type = t, page_spans = spans, data = resolve E' c\<rparr>) gs\<rparr>,
                Done]))"

subsection \<open>The concurrent generator of \<^verbatim>\<open>/ocr-stream\<close>\<close>

text \<open>What a task puts on the queue. \<^verbatim>\<open>process_single_page\<close> wraps
  \<^verbatim>\<open>process_page_with_thread\<close> in a \<^verbatim>\<open>try\<close>; the latter returns on every path, so the
  task always puts a result.\<close>

datatype queue_item = Result_item nat PageResult json | Error_item nat py_error

definition process_single_page :: "builtins \<Rightarrow> page_env \<Rightarrow> nat \<Rightarrow> queue_item" where
  "process_single_page b env i =
     (case process_page_with_thread b env (int i) of
        (page_result, extraction_data) \<Rightarrow> Result_item i page_result extraction_data)"

text \<open>The consumer: the event of an item, and the slot of \<^verbatim>\<open>page_results\<close> it fills.\<close>

fun emit :: "queue_item \<Rightarrow> event" where
  "emit (Result_item i page_result extraction_data) = Page_result i page_result extraction_data"
| "emit (Error_item i e) = Page_error i e"

fun record_item :: "PageResult option list \<Rightarrow> queue_item \<Rightarrow> PageResult option list" where
  "record_item slots (Result_item i page_result extraction_data) = slots[i := Some page_result]"
| "record_item slots (Error_item i e) = slots"

definition successful_pages :: "PageResult option list \<Rightarrow> nat" where
  "successful_pages slots = length (filter (\<lambda>r. r \<noteq> None) slots)"

text \<open>The generator. \<open>arrival\<close> is the order in which the tasks put their items on the
  queue; \<open>fault\<close>, when present, an exception raised in the body after that many items
  have been reported. The rendering, and the \<^verbatim>\<open>HTTPException\<close> for a file that does not
  open, come before the generator starts.\<close>

definition ocr_stream_concurrent ::
  "builtins \<Rightarrow> page_env list \<Rightarrow> nat list \<Rightarrow> (nat \<times> py_error) option \<Rightarrow> event list" where
  "ocr_stream_concurrent b envs arrival fault =
     Start (length envs) #
     (case fault of
        None \<Rightarrow>
          map (\<lambda>i. emit (process_single_page b (envs ! i) i)) arrival @
          [Complete_counts (length envs)
             (successful_pages
                (foldl record_item (replicate (length envs) None)
                   (map (\<lambda>i. process_single_page b (envs ! i) i) arrival)))]
      | Some (k, e) \<Rightarrow>
          map (\<lambda>i. emit (process_single_page b (envs ! i) i)) (take k arrival) @ [Error e])"

subsection \<open>How a stream ends\<close>

fun terminal :: "event \<Rightarrow> bool" where
  "terminal (Complete_counts n k) = True"
| "terminal (Complete_data r) = True"
| "terminal (Error e) = True"
| "terminal Done = True"
| "terminal ev = False"

text \<open>The last event before the sentinel of the sequential stream: the response, or the
  exception that kept it from being built.\<close>

fun closing_event :: "builtins \<Rightarrow> upload \<Rightarrow> event" where
  "closing_event b (Read_fails e) = Error e"
| "closing_event b (Open_fails e) = Error e"
| "closing_event b (Render_fails e) = Error e"
| "closing_event b (Rendered envs) =
     (case final_response b envs of Inl e \<Rightarrow> Error e | Inr r \<Rightarrow> Complete_data r)"

definition concurrent_closing_event :: "nat \<Rightarrow> (nat \<times> py_error) option \<Rightarrow> event" where
  "concurrent_closing_event n fault =
     (case fault of None \<Rightarrow> Complete_counts n n | Some (k, e) \<Rightarrow> Error e)"

text \<open>Two pages of one invoice.\<close>

definition two_pages :: "page_env list" where
  "two_pages =
     [example_env (JObj [(''doc_type'', JStr ''TaxInvoice'')]) (JObj [(''items'', JList [JInt 1])]),
      example_env (JObj [(''doc_type'', JStr ''TaxInvoice'')]) (JObj [(''items'', JList [JInt 2])])]"

section \<open>Properties of the grouping\<close>

subsection \<open>The loop files the maximal runs, one by one\<close>

lemma runs_Cons_join: "runs (p # ps) = join_run (doc_type p) [page_index p] (runs ps)"
  by (simp add: join_run_def split: list.splits)

lemma join_run_join: "join_run t c (join_run t c' rs) = join_run t (c @ c') rs"
  by (auto simp: join_run_def split: list.splits)

lemma join_run_other: "t' \<noteq> t \<Longrightarrow> join_run t c (join_run t' c' rs) = (t, c) # join_run t' c' rs"
  by (auto simp: join_run_def split: list.splits)

lemma chunk_loop_collect:
  "chunk_loop g t c ps = (g', t', c') \<Longrightarrow>
   setdefault_append g' t' c' = collect (join_run t c (runs ps)) g"
proof (induction ps arbitrary: g t c)
  case Nil
  then show ?case by (simp add: join_run_def)
next
  case (Cons p ps)
  show ?case
  proof (cases "doc_type p = t")
    case True
    with Cons.prems have "chunk_loop g t (c @ [page_index p]) ps = (g', t', c')" by simp
    from Cons.IH[OF this] show ?thesis
      using True by (simp only: runs_Cons_join join_run_join)
  next
    case False
    with Cons.prems have "chunk_loop (setdefault_append g t c) (doc_type p) [page_index p] ps = (g', t', c')" by simp
    from Cons.IH[OF this] show ?thesis
      using False by (simp add: runs_Cons_join join_run_other del: runs.simps)
  qed
qed

lemma chunk_collect: "chunk_consecutive_by_type pages = collect (runs pages) []"
proof (cases pages)
  case Nil
  then show ?thesis by (simp add: chunk_consecutive_by_type_def)
next
  case (Cons p0 rest)
  obtain g t c where l: "chunk_loop [] (doc_type p0) [page_index p0] rest = (g, t, c)"
    by (metis prod_cases3)
  from chunk_loop_collect[OF l] show ?thesis
    using Cons l by (simp add: chunk_consecutive_by_type_def runs_Cons_join del: runs.simps)
qed

lemma keys_setdefault_append:
  "map fst (setdefault_append g t c) = (if t \<in> fst ` set g then map fst g else map fst g @ [t])"
  by (induction g) force+


lemma keys_collect:
  "map fst (collect rs g) =
   map fst g @ filter (\<lambda>t. t \<notin> fst ` set g) (first_occurrences (map fst rs))"
proof (induction rs arbitrary: g)
  case Nil
  then show ?case by simp
next
  case (Cons r rs)
  obtain t c where r: "r = (t, c)" by (cases r)
  show ?case
  proof (cases "t \<in> fst ` set g")
    case True
    have s: "fst ` set (setdefault_append g t c) = fst ` set g"
      using arg_cong[OF keys_setdefault_append[of g t c], of set] True by simp
    have "filter (\<lambda>u. u \<notin> fst ` set g) (filter (\<lambda>y. y \<noteq> t) xs) = filter (\<lambda>u. u \<notin> fst ` set g) xs" for xs
      using True by (induction xs) auto
    then show ?thesis
      using True by (simp add: r Cons.IH s keys_setdefault_append)
  next
    case False
    have s: "fst ` set (setdefault_append g t c) = insert t (fst ` set g)"
      using arg_cong[OF keys_setdefault_append[of g t c], of set] False by simp
    have "filter (\<lambda>u. u \<notin> insert t (fst ` set g)) xs = filter (\<lambda>u. u \<notin> fst ` set g) (filter (\<lambda>y. y \<noteq> t) xs)" for xs
      by (induction xs) auto
    then show ?thesis
      using False by (simp add: r Cons.IH s keys_setdefault_append)
  qed
qed

lemma hd_runs: "runs (p # ps) \<noteq> [] \<and> fst (hd (runs (p # ps))) = doc_type p"
  by (auto split: list.splits)

lemma first_occurrences_runs:
  "first_occurrences (map fst (runs ps)) = first_occurrences (map doc_type ps)"
proof (induction ps)
  case Nil
  then show ?case by simp
next
  case (Cons p ps)
  show ?case
  proof (cases "runs ps")
    case Nil
    then have "ps = []" by (cases ps) (auto split: list.splits if_splits)
    then show ?thesis by simp
  next
    case (Cons r rs)
    then show ?thesis using Cons.IH[symmetric] by (cases r) (auto)
  qed
qed

lemma keys_chunk:
  "map fst (chunk_consecutive_by_type pages) = first_occurrences (map doc_type pages)"
  by (simp add: chunk_collect keys_collect first_occurrences_runs)

lemma distinct_first_occurrences: "distinct (first_occurrences xs)"
  by (induction xs) auto

lemma map_of_setdefault_append:
  "map_of (setdefault_append g t c) =
   (map_of g)(t \<mapsto> (case map_of g t of None \<Rightarrow> [c] | Some v \<Rightarrow> v @ [c]))"
  by (induction g) (auto simp: fun_eq_iff)

lemma map_of_collect:
  "map_of (collect rs g) t =
   (case (map_of g t, map snd (filter (\<lambda>r. fst r = t) rs)) of
      (None, []) \<Rightarrow> None
    | (None, cs) \<Rightarrow> Some cs
    | (Some v, cs) \<Rightarrow> Some (v @ cs))"
proof (induction rs arbitrary: g)
  case Nil
  then show ?case by (simp split: option.splits)
next
  case (Cons r rs)
  obtain t' c where r: "r = (t', c)" by (cases r)
  show ?case
    by (simp add: r Cons.IH map_of_setdefault_append split: option.splits list.splits)
qed

lemma spans_chunk:
  assumes "(t, spans) \<in> set (chunk_consecutive_by_type pages)"
  shows "spans = map snd (filter (\<lambda>r. fst r = t) (runs pages))"
proof -
  have "distinct (map fst (chunk_consecutive_by_type pages))"
    by (simp add: keys_chunk distinct_first_occurrences)
  with assms have "map_of (chunk_consecutive_by_type pages) t = Some spans"
    by simp
  then show ?thesis
    by (simp add: chunk_collect map_of_collect split: list.splits)
qed

lemma runs_indices: "concat (map snd (runs ps)) = map page_index ps"
  by (induction ps) (auto split: list.splits)

lemma runs_types:
  "concat (map (\<lambda>(t, c). replicate (length c) t) (runs ps)) = map doc_type ps"
  by (induction ps) (auto split: list.splits)

lemma runs_nonempty: "r \<in> set (runs ps) \<Longrightarrow> snd r \<noteq> []"
  by (induction ps arbitrary: r) (auto split: list.splits if_splits)

lemma adjacent_differ_head:
  "adjacent_differ ((t, c) # rs) \<Longrightarrow> adjacent_differ ((t, c') # rs)"
  by (cases rs) auto

lemma runs_adjacent_differ: "adjacent_differ (runs ps)"
  by (induction ps) (auto split: list.splits intro: adjacent_differ_head)

lemma emitted_setdefault_append:
  "mset (emitted_indices (setdefault_append g t c)) = mset (emitted_indices g) + mset c"
  by (induction g) (auto simp: emitted_indices_def pages_flat_def)

lemma emitted_collect:
  "mset (emitted_indices (collect rs g)) = mset (emitted_indices g) + mset (concat (map snd rs))"
  by (induction rs arbitrary: g) (auto simp: emitted_setdefault_append)

lemma setdefault_append_fresh:
  "t \<notin> fst ` set g \<Longrightarrow> setdefault_append g t c = g @ [(t, [c])]"
  by (induction g) auto

lemma collect_distinct:
  "distinct (map fst rs) \<Longrightarrow> fst ` set rs \<inter> fst ` set g = {} \<Longrightarrow>
   collect rs g = g @ map (\<lambda>(t, c). (t, [c])) rs"
proof (induction rs arbitrary: g)
  case Nil
  then show ?case by simp
next
  case (Cons r rs)
  obtain t c where r: "r = (t, c)" by (cases r)
  from Cons.prems have fresh: "t \<notin> fst ` set g" by (auto simp: r)
  have "collect rs (g @ [(t, [c])]) = (g @ [(t, [c])]) @ map (\<lambda>(t, c). (t, [c])) rs"
    using Cons.prems by (intro Cons.IH) (auto simp: r)
  then show ?case by (simp add: r setdefault_append_fresh[OF fresh])
qed

lemma emitted_distinct:
  "distinct (map fst (runs pages)) \<Longrightarrow>
   emitted_indices (chunk_consecutive_by_type pages) = map page_index pages"
proof -
  assume d: "distinct (map fst (runs pages))"
  have "emitted_indices (map (\<lambda>(t, c). (t, [c])) rs) = concat (map snd rs)" for rs :: "(string \<times> int list) list"
    by (induction rs) (auto simp: emitted_indices_def pages_flat_def)
  then show ?thesis
    using collect_distinct[OF d, of "[]"] by (simp add: chunk_collect runs_indices)
qed

text \<open>
  Claim C1, as the code has it. \<^verbatim>\<open>chunk_consecutive_by_type\<close> returns a dict keyed by
  \<^verbatim>\<open>doc_type\<close>: its keys are the document types in order of first appearance, and
  under each type it holds exactly the maximal runs of that type, in page order. The runs
  are the maximal adjacent-equal runs of the page sequence (their spans concatenate to the
  index sequence, their types to the type sequence, none is empty, neighbours differ in
  type). Every page index lands in exactly one span (the emitted spans are a permutation
  of the index sequence), and the emitted spans reproduce the index sequence in order
  whenever no type comes back after another type has intervened.
\<close>

theorem chunk_consecutive_by_type_runs:
  "map fst (chunk_consecutive_by_type pages) = first_occurrences (map doc_type pages) \<and>
   (\<forall>t spans. (t, spans) \<in> set (chunk_consecutive_by_type pages) \<longrightarrow>
      spans = map snd (filter (\<lambda>r. fst r = t) (runs pages))) \<and>
   concat (map snd (runs pages)) = map page_index pages \<and>
   concat (map (\<lambda>(t, c). replicate (length c) t) (runs pages)) = map doc_type pages \<and>
   (\<forall>r \<in> set (runs pages). snd r \<noteq> []) \<and>
   adjacent_differ (runs pages) \<and>
   mset (emitted_indices (chunk_consecutive_by_type pages)) = mset (map page_index pages) \<and>
   (distinct (map fst (runs pages)) \<longrightarrow>
      emitted_indices (chunk_consecutive_by_type pages) = map page_index pages)"
proof -
  have perm: "mset (emitted_indices (chunk_consecutive_by_type pages)) = mset (map page_index pages)"
    using emitted_collect[of "runs pages" "[]"]
    by (simp add: chunk_collect runs_indices emitted_indices_def)
  show ?thesis
    using keys_chunk spans_chunk runs_indices runs_types runs_nonempty runs_adjacent_differ
      perm emitted_distinct
    by blast
qed

text \<open>The end-to-end example of the specification: two invoice pages, then an e-way bill.\<close>

theorem chunk_consecutive_by_type_runs_witness:
  "chunk_consecutive_by_type
     [mk_page 0 ''TaxInvoice'', mk_page 1 ''TaxInvoice'', mk_page 2 ''EWayBill'']
     = [(''TaxInvoice'', [[0, 1]]), (''EWayBill'', [[2]])] \<and>
   runs [mk_page 0 ''TaxInvoice'', mk_page 1 ''TaxInvoice'', mk_page 2 ''EWayBill'']
     = [(''TaxInvoice'', [0, 1]), (''EWayBill'', [2])] \<and>
   emitted_indices (chunk_consecutive_by_type
     [mk_page 0 ''TaxInvoice'', mk_page 1 ''TaxInvoice'', mk_page 2 ''EWayBill'']) = [0, 1, 2]"
  using chunk_consecutive_by_type_runs
    [of "[mk_page 0 ''TaxInvoice'', mk_page 1 ''TaxInvoice'', mk_page 2 ''EWayBill'']"]
  by (simp add: chunk_consecutive_by_type_def mk_page_def)

text \<open>Claim C1 as stated fails when a type comes back: for the types invoice, e-way bill,
  invoice the dict holds both invoice spans under one key, and the emitted spans read
  0, 2, 1.\<close>

theorem chunk_consecutive_by_type_order_counterexample:
  "chunk_consecutive_by_type
     [mk_page 0 ''TaxInvoice'', mk_page 1 ''EWayBill'', mk_page 2 ''TaxInvoice'']
     = [(''TaxInvoice'', [[0], [2]]), (''EWayBill'', [[1]])] \<and>
   emitted_indices (chunk_consecutive_by_type
     [mk_page 0 ''TaxInvoice'', mk_page 1 ''EWayBill'', mk_page 2 ''TaxInvoice''])
     \<noteq> map page_index
         [mk_page 0 ''TaxInvoice'', mk_page 1 ''EWayBill'', mk_page 2 ''TaxInvoice'']"
  by (simp add: chunk_consecutive_by_type_def mk_page_def emitted_indices_def pages_flat_def)

section \<open>Properties of the per-page workflow\<close>

subsection \<open>Auxiliary facts\<close>

lemma clamp_confidence_unit: "in_unit_interval (clamp_confidence f)"
  by (cases f) (auto simp: clamp_confidence_def py_min_def py_max_def in_unit_interval_def)

lemma clamp_confidence_zero: "clamp_confidence (Finite 0) = Finite 0"
  by (simp add: clamp_confidence_def py_min_def py_max_def)

lemma read_confidence_unit: "in_unit_interval (read_confidence b obj)"
  by (simp add: read_confidence_def clamp_confidence_unit)

lemma force_known_type_member: "force_known_type v \<in> set TYPE_ORDER"
  by (cases v) (auto simp: force_known_type_def, simp_all add: TYPE_ORDER_def)

lemma force_known_type_unknown:
  "v \<notin> JStr ` set TYPE_ORDER \<Longrightarrow> force_known_type v = ''Unknown''"
  by (cases v) (auto simp: force_known_type_def)

lemma degraded_fields:
  "fst (degraded i) = \<lparr>page_index = i, doc_type = ''Unknown'', confidence = Finite 0,
       brief_summary = None, key_hints = None\<rparr> \<and> snd (degraded i) = JObj []"
  by (simp add: degraded_def)

lemma process_page_try_fields:
  assumes "process_page_try b env i = Inr r"
  shows "\<exists>cls dt ext pv n.
            run_classification_outcome env = Inr cls \<and>
            dict_get cls ''doc_type'' (JStr ''Unknown'') = Inr dt \<and>
            run_extraction_outcome env = Inr ext \<and>
            dict_get cls ''page_index'' (JInt i) = Inr pv \<and> py_int b pv = Inr n \<and>
            r = (\<lparr>page_index = n, doc_type = force_known_type dt,
                   confidence = read_confidence b cls,
                   brief_summary = None, key_hints = None\<rparr>,
                 stamp_pages_used i ext)"
  using assms
  by (auto simp: process_page_try_def bind_err_def split: sum.splits)

lemma process_page_unit:
  "in_unit_interval (confidence (fst (process_page_with_thread b env i))) \<and>
   doc_type (fst (process_page_with_thread b env i)) \<in> set TYPE_ORDER"
proof (cases "assistants_available env \<and> (\<exists>r. process_page_try b env i = Inr r)")
  case True
  then obtain r where r: "process_page_try b env i = Inr r" by blast
  from process_page_try_fields[OF r] True r show ?thesis
    by (auto simp: process_page_with_thread_def read_confidence_unit force_known_type_member)
next
  case False
  then have "process_page_with_thread b env i = degraded i"
    by (auto simp: process_page_with_thread_def split: sum.splits)
  then show ?thesis
    by (simp add: degraded_def in_unit_interval_def TYPE_ORDER_def)
qed

lemma classify_one_fields:
  assumes "classify_one b v i outcome = Inr r"
  shows "\<exists>obj. outcome = Inr obj \<and> confidence r = read_confidence b obj \<and>
           doc_type r = force_known_type
             (case obj of JObj kvs \<Rightarrow> (case map_of kvs ''doc_type'' of Some x \<Rightarrow> x | None \<Rightarrow> JNull)
                 | _ \<Rightarrow> JNull)"
  using assms
  by (auto simp: classify_one_def bind_err_def Let_def split: sum.splits)

lemma map_of_dict_set: "map_of (dict_set d k v) = (map_of d)(k \<mapsto> v)"
  by (induction d) (auto simp: fun_eq_iff)

lemma keys_dict_set:
  "map fst (dict_set d k v) = (if k \<in> fst ` set d then map fst d else map fst d @ [k])"
  by (induction d) force+

lemma process_page_degraded:
  "\<not> assistants_available env \<or> process_page_try b env i = Inl e \<Longrightarrow>
   process_page_with_thread b env i = degraded i"
  by (auto simp: process_page_with_thread_def)

lemma process_page_try_fails:
  "create_thread_outcome env = Inl e \<or> send_classification_outcome env = Inl e \<or>
   run_classification_outcome env = Inl e \<or> send_extraction_outcome env = Inl e \<or>
   run_extraction_outcome env = Inl e \<Longrightarrow> \<exists>e'. process_page_try b env i = Inl e'"
  by (auto simp: process_page_try_def bind_err_def split: sum.splits)

lemma process_page_try_malformed:
  "run_classification_outcome env = Inr cls \<Longrightarrow> \<forall>kvs. cls \<noteq> JObj kvs \<Longrightarrow>
   \<exists>e'. process_page_try b env i = Inl e'"
  by (cases cls) (auto simp: process_page_try_def bind_err_def dict_get_def split: sum.splits)

subsection \<open>Degradation\<close>

text \<open>
  Claim C3. \<^verbatim>\<open>process_page_with_thread\<close> returns a result for every page index and every
  behaviour of the remote service: when the assistants are missing, or when any step of the
  \<^verbatim>\<open>try\<close> block raises (thread creation, either message, either run, exhausted retries
  and run failures included, or a classification reply that is not a JSON object), the result
  is the degraded one: \<^verbatim>\<open>doc_type\<close> Unknown, confidence 0.0, the page's own index and an
  empty extraction record. In a batch the result list has one entry per page, and the entry
  of a page is what the processor returns for that page alone, so a failing page leaves
  its siblings' results as they are. (The \<^verbatim>\<open>finally\<close> clause calls
  \<^verbatim>\<open>delete_thread\<close>, which catches every exception of its own requests.)
\<close>

theorem process_page_never_raises:
  "((\<not> assistants_available env \<or> (\<exists>e. process_page_try b env i = Inl e)) \<longrightarrow>
      process_page_with_thread b env i = degraded i) \<and>
   ((\<exists>e. create_thread_outcome env = Inl e \<or> send_classification_outcome env = Inl e \<or>
         run_classification_outcome env = Inl e \<or> send_extraction_outcome env = Inl e \<or>
         run_extraction_outcome env = Inl e) \<longrightarrow>
      process_page_with_thread b env i = degraded i) \<and>
   ((\<exists>cls. run_classification_outcome env = Inr cls \<and> (\<forall>kvs. cls \<noteq> JObj kvs)) \<longrightarrow>
      process_page_with_thread b env i = degraded i) \<and>
   doc_type (fst (degraded i)) = ''Unknown'' \<and> confidence (fst (degraded i)) = Finite 0 \<and>
   page_index (fst (degraded i)) = i \<and> snd (degraded i) = JObj [] \<and>
   length (gather_pages b envs) = length envs \<and>
   (\<forall>j < length envs. gather_pages b envs ! j = process_page_with_thread b (envs ! j) (int j))"
proof -
  have a: "process_page_with_thread b env i = degraded i"
    if "\<not> assistants_available env \<or> (\<exists>e. process_page_try b env i = Inl e)"
    using that process_page_degraded by blast
  have b: "process_page_with_thread b env i = degraded i"
    if "\<exists>e. create_thread_outcome env = Inl e \<or> send_classification_outcome env = Inl e \<or>
         run_classification_outcome env = Inl e \<or> send_extraction_outcome env = Inl e \<or>
         run_extraction_outcome env = Inl e"
    using that process_page_try_fails[of env _ b i] a by blast
  have c: "process_page_with_thread b env i = degraded i"
    if "\<exists>cls. run_classification_outcome env = Inr cls \<and> (\<forall>kvs. cls \<noteq> JObj kvs)"
    using that process_page_try_malformed[of env _ b i] a by blast
  have d: "length (gather_pages b envs) = length envs"
    by (simp add: gather_pages_def)
  have e: "gather_pages b envs ! j = process_page_with_thread b (envs ! j) (int j)"
    if "j < length envs" for j
    using that by (simp add: gather_pages_def)
  show ?thesis
    using a b c d e by (simp add: degraded_def)
qed

text \<open>A three-page batch whose second page cannot reach the remote service.\<close>

theorem process_page_never_raises_witness:
  "gather_pages no_str_numbers
     [example_env (JObj [(''doc_type'', JStr ''TaxInvoice''), (''confidence'', JFloat (Finite (9 / 10)))])
                  (JObj [(''invoice_no'', JStr ''A-17'')]),
      unreachable_env,
      example_env (JObj [(''doc_type'', JStr ''EWayBill''), (''confidence'', JFloat (Finite (4 / 5)))])
                  (JObj [])]
   = [(\<lparr>page_index = 0, doc_type = ''TaxInvoice'', confidence = Finite (9 / 10),
         brief_summary = None, key_hints = None\<rparr>,
       JObj [(''invoice_no'', JStr ''A-17''), (''pages_used'', JList [JInt 0])]),
      (\<lparr>page_index = 1, doc_type = ''Unknown'', confidence = Finite 0,
         brief_summary = None, key_hints = None\<rparr>, JObj []),
      (\<lparr>page_index = 2, doc_type = ''EWayBill'', confidence = Finite (4 / 5),
         brief_summary = None, key_hints = None\<rparr>,
       JObj [(''pages_used'', JList [JInt 2])])] \<and>
   process_page_with_thread no_str_numbers unreachable_env 1 = degraded 1"
proof -
  have u: "\<exists>e. create_thread_outcome unreachable_env = Inl e \<or>
         send_classification_outcome unreachable_env = Inl e \<or>
         run_classification_outcome unreachable_env = Inl e \<or>
         send_extraction_outcome unreachable_env = Inl e \<or>
         run_extraction_outcome unreachable_env = Inl e"
    by (simp add: unreachable_env_def)
  have deg: "process_page_with_thread no_str_numbers unreachable_env 1 = degraded 1"
    using process_page_never_raises[of unreachable_env no_str_numbers 1 "[]"] u by blast
  have up: "[0..<3] = [0, 1, 2]" by (simp add: upt_rec)
  have "gather_pages no_str_numbers
     [example_env (JObj [(''doc_type'', JStr ''TaxInvoice''), (''confidence'', JFloat (Finite (9 / 10)))])
                  (JObj [(''invoice_no'', JStr ''A-17'')]),
      unreachable_env,
      example_env (JObj [(''doc_type'', JStr ''EWayBill''), (''confidence'', JFloat (Finite (4 / 5)))])
                  (JObj [])]
   = [(\<lparr>page_index = 0, doc_type = ''TaxInvoice'', confidence = Finite (9 / 10),
         brief_summary = None, key_hints = None\<rparr>,
       JObj [(''invoice_no'', JStr ''A-17''), (''pages_used'', JList [JInt 0])]),
      degraded 1,
      (\<lparr>page_index = 2, doc_type = ''EWayBill'', confidence = Finite (4 / 5),
         brief_summary = None, key_hints = None\<rparr>,
       JObj [(''pages_used'', JList [JInt 2])])]"
    unfolding gather_pages_def
    by (simp add: up deg, simp add: process_page_with_thread_def process_page_try_def
        example_env_def bind_err_def dict_get_def force_known_type_def TYPE_ORDER_def
        read_confidence_def clamp_confidence_def py_min_def py_max_def stamp_pages_used_def)
  then show ?thesis using deg by (simp add: degraded_def)
qed

subsection \<open>Confidence and document type\<close>

text \<open>
  Claim C5. Every \<^verbatim>\<open>PageResult\<close> produced by the thread workflow, and every one
  produced by \<^verbatim>\<open>classify_pages\<close>, has \<open>0 \<le> confidence \<le> 1\<close> and a \<^verbatim>\<open>doc_type\<close>
  in \<^verbatim>\<open>TYPE_ORDER\<close>; a \<^verbatim>\<open>doc_type\<close> of the reply outside that list becomes Unknown,
  and a confidence that \<^verbatim>\<open>float\<close> refuses becomes 0.0.
\<close>

theorem classification_result_invariant:
  "in_unit_interval (confidence (fst (process_page_with_thread b env i))) \<and>
   doc_type (fst (process_page_with_thread b env i)) \<in> set TYPE_ORDER \<and>
   (\<forall>r. classify_one b v i outcome = Inr r \<longrightarrow>
      in_unit_interval (confidence r) \<and> doc_type r \<in> set TYPE_ORDER) \<and>
   (\<forall>kvs dt. run_classification_outcome env = Inr (JObj kvs) \<and>
      map_of kvs ''doc_type'' = Some dt \<and> dt \<notin> JStr ` set TYPE_ORDER \<longrightarrow>
      doc_type (fst (process_page_with_thread b env i)) = ''Unknown'') \<and>
   (\<forall>kvs dt r. outcome = Inr (JObj kvs) \<and>
      map_of kvs ''doc_type'' = Some dt \<and> dt \<notin> JStr ` set TYPE_ORDER \<and>
      classify_one b v i outcome = Inr r \<longrightarrow> doc_type r = ''Unknown'') \<and>
   (\<forall>kvs c e. run_classification_outcome env = Inr (JObj kvs) \<and>
      map_of kvs ''confidence'' = Some c \<and> py_float b c = Inl e \<longrightarrow>
      confidence (fst (process_page_with_thread b env i)) = Finite 0) \<and>
   (\<forall>kvs c e r. outcome = Inr (JObj kvs) \<and>
      map_of kvs ''confidence'' = Some c \<and> py_float b c = Inl e \<and>
      classify_one b v i outcome = Inr r \<longrightarrow> confidence r = Finite 0)"
proof -
  have c1: "in_unit_interval (confidence r) \<and> doc_type r \<in> set TYPE_ORDER"
    if "classify_one b v i outcome = Inr r" for r
    using classify_one_fields[OF that]
    by (auto simp: read_confidence_unit force_known_type_member)
  have p_unknown: "doc_type (fst (process_page_with_thread b env i)) = ''Unknown''"
    if "run_classification_outcome env = Inr (JObj kvs)" "map_of kvs ''doc_type'' = Some dt"
       "dt \<notin> JStr ` set TYPE_ORDER" for kvs dt
  proof (cases "assistants_available env \<and> (\<exists>r. process_page_try b env i = Inr r)")
    case True
    then obtain r where r: "process_page_try b env i = Inr r" by blast
    from process_page_try_fields[OF r] True r that show ?thesis
      by (auto simp: process_page_with_thread_def dict_get_def force_known_type_unknown)
  next
    case False
    then have "process_page_with_thread b env i = degraded i"
      by (auto simp: process_page_with_thread_def split: sum.splits)
    then show ?thesis by (simp add: degraded_def)
  qed
  have c_unknown: "doc_type r = ''Unknown''"
    if "outcome = Inr (JObj kvs)" "map_of kvs ''doc_type'' = Some dt"
       "dt \<notin> JStr ` set TYPE_ORDER" "classify_one b v i outcome = Inr r" for kvs dt r
    using classify_one_fields[OF that(4)] that(1-3)
    by (auto simp: force_known_type_unknown)
  have rc: "read_confidence b (JObj kvs) = Finite 0"
    if "map_of kvs ''confidence'' = Some c" "py_float b c = Inl e" for kvs c e
    using that by (simp add: read_confidence_def dict_get_def bind_err_def clamp_confidence_zero)
  have p_conf: "confidence (fst (process_page_with_thread b env i)) = Finite 0"
    if "run_classification_outcome env = Inr (JObj kvs)" "map_of kvs ''confidence'' = Some c"
       "py_float b c = Inl e" for kvs c e
  proof (cases "assistants_available env \<and> (\<exists>r. process_page_try b env i = Inr r)")
    case True
    then obtain r where r: "process_page_try b env i = Inr r" by blast
    from process_page_try_fields[OF r] True r that rc[OF that(2,3)] show ?thesis
      by (auto simp: process_page_with_thread_def)
  next
    case False
    then have "process_page_with_thread b env i = degraded i"
      by (auto simp: process_page_with_thread_def split: sum.splits)
    then show ?thesis by (simp add: degraded_def)
  qed
  have c_conf: "confidence r = Finite 0"
    if "outcome = Inr (JObj kvs)" "map_of kvs ''confidence'' = Some c" "py_float b c = Inl e"
       "classify_one b v i outcome = Inr r" for kvs c e r
    using classify_one_fields[OF that(4)] that(1) rc[OF that(2,3)] by auto
  show ?thesis
    using process_page_unit[of b env i] c1 p_unknown c_unknown p_conf c_conf by blast
qed

text \<open>A reply with an unlisted type and confidence 1.5, and one with a confidence that is
  not a number.\<close>

theorem classification_result_invariant_witness:
  "process_page_with_thread no_str_numbers
     (example_env (JObj [(''doc_type'', JStr ''Receipt''), (''confidence'', JFloat (Finite (3 / 2)))])
                  (JObj [])) 0
   = (\<lparr>page_index = 0, doc_type = ''Unknown'', confidence = Finite 1,
        brief_summary = None, key_hints = None\<rparr>, JObj [(''pages_used'', JList [JInt 0])]) \<and>
   classify_one no_str_numbers strict_validators 0
     (Inr (JObj [(''doc_type'', JStr ''EWayBill''), (''confidence'', JStr ''high'')]))
   = Inr \<lparr>page_index = 0, doc_type = ''EWayBill'', confidence = Finite 0,
        brief_summary = None, key_hints = None\<rparr> \<and>
   in_unit_interval (confidence (fst (process_page_with_thread no_str_numbers
     (example_env (JObj [(''doc_type'', JStr ''Receipt''), (''confidence'', JFloat (Finite (3 / 2)))])
                  (JObj [])) 0)))"
  using classification_result_invariant
    [of no_str_numbers
        "example_env (JObj [(''doc_type'', JStr ''Receipt''), (''confidence'', JFloat (Finite (3 / 2)))])
                  (JObj [])" 0 strict_validators
        "Inr (JObj [(''doc_type'', JStr ''EWayBill''), (''confidence'', JStr ''high'')])"]
  by (simp add: process_page_with_thread_def process_page_try_def example_env_def bind_err_def
      dict_get_def force_known_type_def TYPE_ORDER_def read_confidence_def clamp_confidence_def
      py_min_def py_max_def stamp_pages_used_def classify_one_def no_str_numbers_def
      strict_validators_def in_unit_interval_def)

subsection \<open>Index alignment of the batch result\<close>

text \<open>
  Claim C9, as the code has it. The list \<^verbatim>\<open>page_results\<close> of the batch endpoint has
  one entry per input page, and entry \<open>i\<close> is the result of processing page \<open>i\<close>
  whatever the order in which the tasks finish (\<^verbatim>\<open>asyncio.gather\<close> returns results in
  task order). Its \<^verbatim>\<open>page_index\<close> field is \<open>i\<close> when the page degraded or when the
  classification reply has no \<^verbatim>\<open>page_index\<close> key; when the reply has one, the field is
  \<^verbatim>\<open>int\<close> of the reply's value.
\<close>

theorem page_results_aligned:
  "length (page_results b envs) = length envs \<and>
   (\<forall>i < length envs.
      page_results b envs ! i = fst (process_page_with_thread b (envs ! i) (int i))) \<and>
   (\<forall>i < length envs. process_page_with_thread b (envs ! i) (int i) = degraded (int i) \<longrightarrow>
      page_index (page_results b envs ! i) = int i) \<and>
   (\<forall>i < length envs. \<forall>kvs. run_classification_outcome (envs ! i) = Inr (JObj kvs) \<and>
      map_of kvs ''page_index'' = None \<longrightarrow>
      page_index (page_results b envs ! i) = int i) \<and>
   (\<forall>i < length envs. \<forall>kvs v. assistants_available (envs ! i) \<and>
      (\<exists>r. process_page_try b (envs ! i) (int i) = Inr r) \<and>
      run_classification_outcome (envs ! i) = Inr (JObj kvs) \<and>
      map_of kvs ''page_index'' = Some v \<longrightarrow>
      py_int b v = Inr (page_index (page_results b envs ! i)))"
proof -
  have nth: "page_results b envs ! i = fst (process_page_with_thread b (envs ! i) (int i))"
    if "i < length envs" for i
    using that by (simp add: page_results_def gather_pages_def)
  have deg: "page_index (page_results b envs ! i) = int i"
    if "i < length envs" "process_page_with_thread b (envs ! i) (int i) = degraded (int i)" for i
    using that nth by (simp add: degraded_def)
  have absent: "page_index (fst (process_page_with_thread b env j)) = j"
    if "run_classification_outcome env = Inr (JObj kvs)" "map_of kvs ''page_index'' = None"
    for env j kvs
  proof (cases "assistants_available env \<and> (\<exists>r. process_page_try b env j = Inr r)")
    case True
    then obtain r where r: "process_page_try b env j = Inr r" by blast
    from process_page_try_fields[OF r] True r that show ?thesis
      by (auto simp: process_page_with_thread_def dict_get_def)
  next
    case False
    then have "process_page_with_thread b env j = degraded j"
      by (auto simp: process_page_with_thread_def split: sum.splits)
    then show ?thesis by (simp add: degraded_def)
  qed
  have present: "py_int b v = Inr (page_index (fst (process_page_with_thread b env j)))"
    if "assistants_available env" "process_page_try b env j = Inr r"
       "run_classification_outcome env = Inr (JObj kvs)" "map_of kvs ''page_index'' = Some v"
    for env j kvs v r
    using process_page_try_fields[OF that(2)] that
    by (auto simp: process_page_with_thread_def dict_get_def)
  show ?thesis
    using nth deg absent present by (auto simp: page_results_def gather_pages_def)
qed

text \<open>Three pages: a reply without \<^verbatim>\<open>page_index\<close>, one whose \<^verbatim>\<open>page_index\<close> is
  refused by \<^verbatim>\<open>int\<close> (the page degrades), and one that repeats its own index.\<close>

theorem page_results_aligned_witness:
  "page_results no_str_numbers
     [example_env (JObj [(''doc_type'', JStr ''TaxInvoice'')]) (JObj []),
      example_env (JObj [(''doc_type'', JStr ''TaxInvoice''), (''page_index'', JStr ''one'')]) (JObj []),
      example_env (JObj [(''doc_type'', JStr ''EWayBill''), (''page_index'', JInt 2)]) (JObj [])]
   = [\<lparr>page_index = 0, doc_type = ''TaxInvoice'', confidence = Finite 0,
        brief_summary = None, key_hints = None\<rparr>,
      \<lparr>page_index = 1, doc_type = ''Unknown'', confidence = Finite 0,
        brief_summary = None, key_hints = None\<rparr>,
      \<lparr>page_index = 2, doc_type = ''EWayBill'', confidence = Finite 0,
        brief_summary = None, key_hints = None\<rparr>] \<and>
   length (page_results no_str_numbers
     [example_env (JObj [(''doc_type'', JStr ''TaxInvoice'')]) (JObj []),
      example_env (JObj [(''doc_type'', JStr ''TaxInvoice''), (''page_index'', JStr ''one'')]) (JObj []),
      example_env (JObj [(''doc_type'', JStr ''EWayBill''), (''page_index'', JInt 2)]) (JObj [])]) = 3"
proof -
  have up: "[0..<3] = [0, 1, 2]" by (simp add: upt_rec)
  show ?thesis
    using page_results_aligned [of no_str_numbers
     "[example_env (JObj [(''doc_type'', JStr ''TaxInvoice'')]) (JObj []),
      example_env (JObj [(''doc_type'', JStr ''TaxInvoice''), (''page_index'', JStr ''one'')]) (JObj []),
      example_env (JObj [(''doc_type'', JStr ''EWayBill''), (''page_index'', JInt 2)]) (JObj [])]"]
    by (simp add: page_results_def gather_pages_def up process_page_with_thread_def
        process_page_try_def example_env_def bind_err_def dict_get_def force_known_type_def
        TYPE_ORDER_def read_confidence_def clamp_confidence_def py_min_def py_max_def
        stamp_pages_used_def no_str_numbers_def degraded_def)
qed

text \<open>Claim C9 as stated fails: a reply for page 0 that says \<^verbatim>\<open>"page_index": 7\<close> puts
  7 into the field.\<close>

theorem page_index_from_reply_counterexample:
  "page_index (page_results no_str_numbers
     [example_env (JObj [(''doc_type'', JStr ''TaxInvoice''), (''page_index'', JInt 7)]) (JObj [])] ! 0)
   = 7 \<and>
   page_index (page_results no_str_numbers
     [example_env (JObj [(''doc_type'', JStr ''TaxInvoice''), (''page_index'', JInt 7)]) (JObj [])] ! 0)
   \<noteq> 0"
  by (simp add: page_results_def gather_pages_def process_page_with_thread_def
        process_page_try_def example_env_def bind_err_def dict_get_def)

subsection \<open>The \<^verbatim>\<open>pages_used\<close> stamp\<close>

text \<open>
  Claim C10, as the code has it. For a successfully processed page whose extraction reply
  is a JSON object, \<^verbatim>\<open>process_page_with_thread\<close> sets \<^verbatim>\<open>pages_used\<close> to
  \<open>[page_index]\<close> whether or not the reply has the key (every other key keeps its value);
  a reply that is not an object is returned as it is. Only \<^verbatim>\<open>extract_for_group\<close> stamps
  \<^verbatim>\<open>pages_used\<close> (with the pages of the group) when the key is absent and keeps the
  reply's value when it is present.
\<close>

theorem pages_used_stamped:
  "(\<forall>r kvs. assistants_available env \<and> process_page_try b env i = Inr r \<and>
      run_extraction_outcome env = Inr (JObj kvs) \<longrightarrow>
      snd (process_page_with_thread b env i) = JObj (dict_set kvs ''pages_used'' (JList [JInt i])) \<and>
      map_of (dict_set kvs ''pages_used'' (JList [JInt i])) ''pages_used'' = Some (JList [JInt i]) \<and>
      (\<forall>k. k \<noteq> ''pages_used'' \<longrightarrow>
         map_of (dict_set kvs ''pages_used'' (JList [JInt i])) k = map_of kvs k)) \<and>
   (\<forall>r ext. assistants_available env \<and> process_page_try b env i = Inr r \<and>
      run_extraction_outcome env = Inr ext \<and> (\<forall>kvs. ext \<noteq> JObj kvs) \<longrightarrow>
      snd (process_page_with_thread b env i) = ext) \<and>
   (\<forall>kvs v. extract_for_group True spans n (Inr (JObj kvs)) = Inr v \<and>
      ''pages_used'' \<in> fst ` set kvs \<longrightarrow> v = JObj kvs) \<and>
   (\<forall>kvs v. extract_for_group True spans n (Inr (JObj kvs)) = Inr v \<and>
      ''pages_used'' \<notin> fst ` set kvs \<longrightarrow>
      v = JObj (kvs @ [(''pages_used'', JList (map JInt (pages_flat spans)))]))"
proof -
  have a: "snd (process_page_with_thread b env i) = stamp_pages_used i ext"
    if "assistants_available env" "process_page_try b env i = Inr r"
       "run_extraction_outcome env = Inr ext" for r ext
    using process_page_try_fields[OF that(2)] that
    by (auto simp: process_page_with_thread_def)
  have fresh: "k \<notin> fst ` set d \<Longrightarrow> dict_set d k x = d @ [(k, x)]" for d :: "(string \<times> json) list" and k x
    by (induction d) auto
  have g1: "v = JObj kvs"
    if "extract_for_group True spans n (Inr (JObj kvs)) = Inr v" "''pages_used'' \<in> fst ` set kvs"
    for kvs v
    using that by (auto simp: extract_for_group_def bind_err_def split: if_splits)
  have g2: "v = JObj (kvs @ [(''pages_used'', JList (map JInt (pages_flat spans)))])"
    if "extract_for_group True spans n (Inr (JObj kvs)) = Inr v" "''pages_used'' \<notin> fst ` set kvs"
    for kvs v
    using that fresh[OF that(2)]
    by (auto simp: extract_for_group_def bind_err_def split: if_splits)
  have nd: "stamp_pages_used i ext = ext" if "\<forall>kvs. ext \<noteq> JObj kvs" for ext
    using that by (cases ext) (auto simp: stamp_pages_used_def)
  show ?thesis
    using a g1 g2 nd by (auto simp: stamp_pages_used_def map_of_dict_set)
qed

theorem pages_used_stamped_witness:
  "process_page_with_thread no_str_numbers
     (example_env (JObj [(''doc_type'', JStr ''TaxInvoice'')])
                  (JObj [(''total'', JInt 40), (''pages_used'', JNull)])) 3
   = (\<lparr>page_index = 3, doc_type = ''TaxInvoice'', confidence = Finite 0,
        brief_summary = None, key_hints = None\<rparr>,
      JObj [(''total'', JInt 40), (''pages_used'', JList [JInt 3])]) \<and>
   extract_for_group True [[0, 1]] 2 (Inr (JObj [(''pages_used'', JList [JInt 1])]))
   = Inr (JObj [(''pages_used'', JList [JInt 1])]) \<and>
   extract_for_group True [[0, 1]] 2 (Inr (JObj [(''total'', JInt 40)]))
   = Inr (JObj [(''total'', JInt 40), (''pages_used'', JList [JInt 0, JInt 1])])"
  using pages_used_stamped [of "example_env (JObj [(''doc_type'', JStr ''TaxInvoice'')])
                  (JObj [(''total'', JInt 40), (''pages_used'', JNull)])" no_str_numbers 3 "[[0, 1]]" 2]
  by (simp add: process_page_with_thread_def process_page_try_def example_env_def bind_err_def
      dict_get_def force_known_type_def TYPE_ORDER_def read_confidence_def clamp_confidence_def
      py_min_def py_max_def stamp_pages_used_def extract_for_group_def pages_flat_def)

text \<open>Claim C10 as stated fails: a reply for page 0 with \<^verbatim>\<open>"pages_used": [5]\<close> comes
  back with \<^verbatim>\<open>"pages_used": [0]\<close>.\<close>

theorem pages_used_preserved_counterexample:
  "snd (process_page_with_thread no_str_numbers
     (example_env (JObj [(''doc_type'', JStr ''TaxInvoice'')])
                  (JObj [(''pages_used'', JList [JInt 5])])) 0)
   = JObj [(''pages_used'', JList [JInt 0])] \<and>
   snd (process_page_with_thread no_str_numbers
     (example_env (JObj [(''doc_type'', JStr ''TaxInvoice'')])
                  (JObj [(''pages_used'', JList [JInt 5])])) 0)
   \<noteq> JObj [(''pages_used'', JList [JInt 5])]"
  by (simp add: process_page_with_thread_def process_page_try_def example_env_def bind_err_def
      dict_get_def stamp_pages_used_def)

section \<open>Properties of the merge\<close>

subsection \<open>The loop computes the specification's merge\<close>

lemma dict_set_fresh: "map_of d k = None \<Longrightarrow> dict_set d k v = d @ [(k, v)]"
  by (induction d) (auto split: if_splits)

lemma dict_set_same: "map_of d k = Some v \<Longrightarrow> dict_set d k v = d"
  by (induction d) (auto split: if_splits)

lemma set_dict_set: "set (dict_set d k v) \<subseteq> insert (k, v) (set d)"
  by (induction d) (auto split: if_splits)

lemma alist_eqI:
  "map fst xs = map fst ys \<Longrightarrow> distinct (map fst xs) \<Longrightarrow> map_of xs = map_of ys \<Longrightarrow> xs = ys"
proof (induction xs arbitrary: ys)
  case Nil
  then show ?case by simp
next
  case (Cons x xs)
  then obtain y ys' where ys: "ys = y # ys'" by (cases ys) auto
  obtain k v where x: "x = (k, v)" by (cases x)
  obtain k' v' where y: "y = (k', v')" by (cases y)
  from Cons.prems(1) have kk: "k' = k" and keys: "map fst xs = map fst ys'" by (auto simp: ys x y)
  from fun_cong[OF Cons.prems(3), of k] have "map_of (x # xs) k = map_of ys k" .
  then have vv: "v' = v" by (simp add: ys x y kk)
  have k_notin: "k \<notin> fst ` set xs" using Cons.prems(2) by (simp add: x)
  have "map_of xs j = map_of ys' j" for j
  proof (cases "j = k")
    case True
    have "map_of xs k = None" using k_notin by (simp add: map_of_eq_None_iff)
    moreover have "map_of ys' k = None"
      using k_notin keys by (metis map_of_eq_None_iff set_map)
    ultimately show ?thesis using True by simp
  next
    case False
    from fun_cong[OF Cons.prems(3), of j] have "map_of (x # xs) j = map_of ys j" .
    then show ?thesis using False by (simp add: ys x y kk)
  qed
  then have "map_of xs = map_of ys'" by (simp add: fun_eq_iff)
  with Cons.IH[OF keys] Cons.prems(2) have "xs = ys'" by simp
  then show ?case by (simp add: ys x y kk vv)
qed

lemma resolve_alt: "resolve E c = map (\<lambda>(k, x). (k, resolve_cell E k x)) c"
  by (simp add: resolve_def resolve_cell_def)

lemma keys_resolve: "map fst (resolve E c) = map fst c"
  by (induction c) (auto simp: resolve_alt)

lemma map_of_resolve: "map_of (resolve E c) k = map_option (resolve_cell E k) (map_of c k)"
  by (induction c) (auto simp: resolve_alt)

lemma resolve_append: "resolve E (c @ c') = resolve E c @ resolve E c'"
  by (simp add: resolve_alt)

lemma resolve_dict_set: "resolve E (dict_set c k x) = dict_set (resolve E c) k (resolve_cell E k x)"
  by (induction c) (auto simp: resolve_alt)

lemma page_list_extend_same:
  "q < length E \<Longrightarrow> E ! q = JObj kvs \<Longrightarrow>
   page_list (extend_page_list E q k ys) q k = page_list E q k @ ys"
  by (simp add: page_list_def extend_page_list_def map_of_dict_set)

lemma page_list_extend_other:
  "(q', k') \<noteq> (q, k) \<Longrightarrow> page_list (extend_page_list E q k ys) q' k' = page_list E q' k'"
proof (cases "q' = q")
  case False
  then show ?thesis by (simp add: page_list_def extend_page_list_def)
next
  case True
  assume "(q', k') \<noteq> (q, k)"
  with True have kk: "k' \<noteq> k" by simp
  show ?thesis
  proof (cases "q < length E")
    case False
    then have "extend_page_list E q k ys = E"
      by (simp add: extend_page_list_def list_update_beyond)
    then show ?thesis by simp
  next
    case lt: True
    show ?thesis
      using True kk lt
      by (cases "E ! q") (simp_all add: page_list_def extend_page_list_def map_of_dict_set)
  qed
qed

lemma nth_extend_other: "q' \<noteq> q \<Longrightarrow> extend_page_list E q k ys ! q' = E ! q'"
  by (simp add: extend_page_list_def)

lemma length_extend [simp]: "length (extend_page_list E q k ys) = length E"
  by (simp add: extend_page_list_def)

lemma extend_keeps_list:
  assumes "E ! q' = JObj kvs" "map_of kvs k' = Some (JList xs)"
  shows "\<exists>kvs' xs'. extend_page_list E q k ys ! q' = JObj kvs' \<and> map_of kvs' k' = Some (JList xs')"
proof (cases "q' = q \<and> q < length E")
  case True
  then show ?thesis using assms
    by (auto simp: extend_page_list_def map_of_dict_set)
next
  case False
  then have "extend_page_list E q k ys ! q' = E ! q'"
    by (cases "q < length E") (auto simp: extend_page_list_def list_update_beyond)
  then show ?thesis using assms by simp
qed

lemma merge_record_alt: "merge_record acc page = foldl spec_step acc page"
proof -
  have "(\<lambda>a (k, v). dict_set a k (merge_value (map_of a k) v)) = spec_step"
    by (auto simp: spec_step_def fun_eq_iff)
  then show ?thesis by (simp add: merge_record_def)
qed

lemma resolve_cell_of:
  assumes "E ! p = JObj kvs" "map_of kvs k = Some v"
  shows "resolve_cell E k (cell_of p v) = v"
  using assms by (cases v) (auto simp: resolve_cell_def cell_of_def page_list_def)

lemma merge_field_step:
  assumes inv: "merge_inv E0 V p done (E, c)"
    and p: "p \<notin> V" "p < length E0" "E0 ! p = JObj kvs"
    and kv: "map_of kvs k = Some v" "k \<notin> done"
  shows "merge_inv E0 V p (insert k done) (merge_field p (E, c) (k, v)) \<and>
         resolve (fst (merge_field p (E, c) (k, v))) (snd (merge_field p (E, c) (k, v)))
           = spec_step (resolve E c) (k, v)"
proof -
  from inv have len: "length E = length E0"
    and frame: "\<And>q. q \<notin> V \<Longrightarrow> E ! q = E0 ! q"
    and dist: "distinct (map fst c)"
    and cells: "\<And>k' q. (k', ListOf q) \<in> set c \<Longrightarrow>
         q < length E0 \<and> (q \<in> V \<or> (q = p \<and> k' \<in> done)) \<and>
         (\<exists>kvs xs. E ! q = JObj kvs \<and> map_of kvs k' = Some (JList xs))"
    by (auto simp: merge_inv_def)
  have Ep: "E ! p = JObj kvs" using frame[OF p(1)] p(3) by simp
  have rc: "resolve_cell E k (cell_of p v) = v" by (rule resolve_cell_of[OF Ep kv(1)])
  have new_cell: "\<And>q. cell_of p v = ListOf q \<Longrightarrow>
      q < length E0 \<and> (q \<in> V \<or> (q = p \<and> k \<in> insert k done)) \<and>
      (\<exists>kvs xs. E ! q = JObj kvs \<and> map_of kvs k = Some (JList xs))"
    using Ep kv(1) p(2) by (cases v) (auto simp: cell_of_def)
  have weaken: "\<And>k' q. (k', ListOf q) \<in> set c \<Longrightarrow>
         q < length E0 \<and> (q \<in> V \<or> (q = p \<and> k' \<in> insert k done)) \<and>
         (\<exists>kvs xs. E ! q = JObj kvs \<and> map_of kvs k' = Some (JList xs))"
    using cells by blast
  have same: "merge_inv E0 V p (insert k done) (E, c)"
    using len frame dist weaken by (auto simp: merge_inv_def)
  show ?thesis
  proof (cases "map_of c k")
    case None
    then have fresh: "k \<notin> fst ` set c" by (simp add: map_of_eq_None_iff)
    have mf: "merge_field p (E, c) (k, v) = (E, c @ [(k, cell_of p v)])"
      using None by simp
    have i: "merge_inv E0 V p (insert k done) (E, c @ [(k, cell_of p v)])"
      using len frame dist fresh weaken new_cell by (auto simp: merge_inv_def)
    have "map_of (resolve E c) k = None" using None by (simp add: map_of_resolve)
    then have "spec_step (resolve E c) (k, v) = resolve E c @ [(k, v)]"
      by (simp add: spec_step_def merge_value_def dict_set_fresh)
    moreover have "resolve E (c @ [(k, cell_of p v)]) = resolve E c @ [(k, v)]"
      using rc by (simp add: resolve_append, simp add: resolve_alt)
    ultimately show ?thesis using i mf by simp
  next
    case (Some x)
    then have mem: "(k, x) \<in> set c" by (rule map_of_SomeD)
    then have kin: "k \<in> fst ` set c" by (rule image_eqI[rotated]) simp
    have kin': "k \<in> fst ` set (resolve E c)"
      using kin arg_cong[OF keys_resolve[of E c], of set] by simp
    have rk: "map_of (resolve E c) k = Some (resolve_cell E k x)"
      using Some by (simp add: map_of_resolve)
    have keep: "dict_set (resolve E c) k (resolve_cell E k x) = resolve E c"
      using rk by (rule dict_set_same)
    have set_inv: "merge_inv E0 V p (insert k done) (E, dict_set c k y)"
      if "\<And>q. y = ListOf q \<Longrightarrow> q < length E0 \<and> (q \<in> V \<or> (q = p \<and> k \<in> insert k done)) \<and>
            (\<exists>kvs xs. E ! q = JObj kvs \<and> map_of kvs k = Some (JList xs))" for y
    proof -
      have d: "distinct (map fst (dict_set c k y))"
        using dist kin by (simp add: keys_dict_set)
      have "\<And>k' q. (k', ListOf q) \<in> set (dict_set c k y) \<Longrightarrow>
          q < length E0 \<and> (q \<in> V \<or> (q = p \<and> k' \<in> insert k done)) \<and>
          (\<exists>kvs xs. E ! q = JObj kvs \<and> map_of kvs k' = Some (JList xs))"
      proof -
        fix k' q assume "(k', ListOf q) \<in> set (dict_set c k y)"
        with set_dict_set[of c k y] have "(k', ListOf q) = (k, y) \<or> (k', ListOf q) \<in> set c" by auto
        then show "q < length E0 \<and> (q \<in> V \<or> (q = p \<and> k' \<in> insert k done)) \<and>
          (\<exists>kvs xs. E ! q = JObj kvs \<and> map_of kvs k' = Some (JList xs))"
          using that weaken by auto
      qed
      then show ?thesis using len frame d by (auto simp: merge_inv_def)
    qed
    show ?thesis
    proof (cases x)
      case (ListOf q')
      from cells[of k q'] mem ListOf kv(2) obtain kvs' xs where
        q': "q' < length E0" "q' \<in> V" "E ! q' = JObj kvs'" "map_of kvs' k = Some (JList xs)"
        by auto
      have q'p: "q' \<noteq> p" using q'(2) p(1) by auto
      have pl: "page_list E q' k = xs" using q'(3,4) by (simp add: page_list_def)
      show ?thesis
      proof (cases v)
        case (JList ys)
        let ?E' = "extend_page_list E q' k ys"
        have mf: "merge_field p (E, c) (k, v) = (?E', c)"
          using Some ListOf JList by simp
        have i: "merge_inv E0 V p (insert k done) (?E', c)"
          unfolding merge_inv_def
        proof (intro conjI allI impI)
          show "length (fst (?E', c)) = length E0" using len by simp
          show "distinct (map fst (snd (?E', c)))" using dist by simp
        next
          fix q assume "q \<notin> V"
          then have "q \<noteq> q'" using q'(2) by auto
          then show "fst (?E', c) ! q = E0 ! q"
            using frame[OF \<open>q \<notin> V\<close>] by (simp add: nth_extend_other)
        next
          fix k'' q'' assume m: "(k'', ListOf q'') \<in> set (snd (?E', c))"
          then have m': "(k'', ListOf q'') \<in> set c" by simp
          from weaken[OF m'] show "q'' < length E0" by blast
          from weaken[OF m'] show "q'' \<in> V \<or> q'' = p \<and> k'' \<in> insert k done" by blast
          from weaken[OF m'] obtain kvs2 xs2 where
            "E ! q'' = JObj kvs2" "map_of kvs2 k'' = Some (JList xs2)" by blast
          from extend_keeps_list[OF this]
          show "\<exists>kvs xs. fst (?E', c) ! q'' = JObj kvs \<and> map_of kvs k'' = Some (JList xs)"
            by simp
        qed
        have "resolve ?E' c = dict_set (resolve E c) k (JList (xs @ ys))"
        proof (rule alist_eqI)
          show "map fst (resolve ?E' c) = map fst (dict_set (resolve E c) k (JList (xs @ ys)))"
            using kin' by (simp add: keys_resolve keys_dict_set)
          show "distinct (map fst (resolve ?E' c))" using dist by (simp add: keys_resolve)
          show "map_of (resolve ?E' c) = map_of (dict_set (resolve E c) k (JList (xs @ ys)))"
          proof
            fix j
            show "map_of (resolve ?E' c) j = map_of (dict_set (resolve E c) k (JList (xs @ ys))) j"
            proof (cases "j = k")
              case True
              have "q' < length E" using q'(1) len by simp
              from page_list_extend_same[OF this q'(3), of k ys]
              show ?thesis using True Some ListOf pl
                by (simp add: map_of_resolve map_of_dict_set resolve_cell_def)
            next
              case False
              have "resolve_cell ?E' j y = resolve_cell E j y" for y
                using False by (cases y) (simp_all add: resolve_cell_def page_list_extend_other)
              then show ?thesis using False
                by (simp add: map_of_resolve map_of_dict_set cong: map_option_cong)
            qed
          qed
        qed
        moreover have "spec_step (resolve E c) (k, v) = dict_set (resolve E c) k (JList (xs @ ys))"
          using rk ListOf JList pl by (simp add: spec_step_def merge_value_def resolve_cell_def)
        ultimately show ?thesis using i mf by simp
      qed (use Some ListOf same rk keep pl in
            \<open>simp_all add: spec_step_def merge_value_def resolve_cell_def\<close>)
    next
      case (Val a)
      have rk': "map_of (resolve E c) k = Some a" using rk Val by (simp add: resolve_cell_def)
      have keep': "dict_set (resolve E c) k a = resolve E c" using rk' by (rule dict_set_same)
      show ?thesis
      proof (cases a)
        case JNull
        show ?thesis
        proof (cases "v = JNull")
          case True
          then show ?thesis using Some Val JNull same rk' keep'
            by (simp add: spec_step_def merge_value_def)
        next
          case False
          have mf: "merge_field p (E, c) (k, v) = (E, dict_set c k (cell_of p v))"
            using Some Val JNull False by simp
          have "resolve E (dict_set c k (cell_of p v)) = dict_set (resolve E c) k v"
            using rc by (simp add: resolve_dict_set)
          moreover have "spec_step (resolve E c) (k, v) = dict_set (resolve E c) k v"
            using rk' JNull False by (simp add: spec_step_def merge_value_def)
          ultimately show ?thesis using mf set_inv[of "cell_of p v"] new_cell by simp
        qed
      next
        case (JList xs)
        show ?thesis
        proof (cases v)
          case (JList ys)
          have mf: "merge_field p (E, c) (k, v) = (E, dict_set c k (Val (JList (xs @ ys))))"
            using Some Val \<open>a = JList xs\<close> JList by simp
          have "resolve E (dict_set c k (Val (JList (xs @ ys)))) = dict_set (resolve E c) k (JList (xs @ ys))"
            by (simp add: resolve_dict_set resolve_cell_def)
          moreover have "spec_step (resolve E c) (k, v) = dict_set (resolve E c) k (JList (xs @ ys))"
            using rk' \<open>a = JList xs\<close> JList by (simp add: spec_step_def merge_value_def)
          ultimately show ?thesis using mf set_inv[of "Val (JList (xs @ ys))"] by simp
        qed (use Some Val \<open>a = JList xs\<close> same rk' keep' in
              \<open>simp_all add: spec_step_def merge_value_def\<close>)
      qed (use Some Val same rk' keep' in \<open>simp_all add: spec_step_def merge_value_def\<close>)
    qed
  qed
qed

lemma merge_fields:
  assumes p: "p \<notin> V" "p < length E0" "E0 ! p = JObj kvs" "distinct (map fst kvs)"
  shows "merge_inv E0 V p done s \<Longrightarrow> set rest \<subseteq> set kvs \<Longrightarrow> distinct (map fst rest) \<Longrightarrow>
         fst ` set rest \<inter> done = {} \<Longrightarrow>
         merge_inv E0 V p (done \<union> fst ` set rest) (foldl (merge_field p) s rest) \<and>
         resolve (fst (foldl (merge_field p) s rest)) (snd (foldl (merge_field p) s rest))
           = foldl spec_step (resolve (fst s) (snd s)) rest"
proof (induction rest arbitrary: s "done")
  case Nil
  then show ?case by simp
next
  case (Cons kv rest)
  obtain k v where kv: "kv = (k, v)" by (cases kv)
  obtain E c where s: "s = (E, c)" by (cases s)
  from Cons.prems(2) have "(k, v) \<in> set kvs" by (simp add: kv)
  with p(4) have look: "map_of kvs k = Some v" by simp
  from Cons.prems(4) have nd: "k \<notin> done" by (auto simp: kv)
  from merge_field_step[OF Cons.prems(1)[unfolded s] p(1-3) look nd]
  have i1: "merge_inv E0 V p (insert k done) (merge_field p (E, c) (k, v))"
    and r1: "resolve (fst (merge_field p (E, c) (k, v))) (snd (merge_field p (E, c) (k, v)))
           = spec_step (resolve E c) (k, v)"
    by blast+
  have sub: "set rest \<subseteq> set kvs" using Cons.prems(2) by simp
  have d: "distinct (map fst rest)" using Cons.prems(3) by simp
  have disj: "fst ` set rest \<inter> insert k done = {}"
    using Cons.prems(3,4) by (auto simp: kv)
  from Cons.IH[OF i1 sub d disj]
  show ?case using r1 by (simp add: kv s Un_commute insert_commute)
qed

lemma merge_inv_any: "merge_inv E0 V p {} s \<Longrightarrow> merge_inv E0 V p' {} s"
  by (simp add: merge_inv_def)

lemma merge_inv_visited:
  "merge_inv E0 V p done s \<Longrightarrow> merge_inv E0 (insert p V) p' {} s"
  unfolding merge_inv_def by blast

lemma merge_page_step:
  assumes inv: "merge_inv E0 V p0 {} s"
    and i: "0 \<le> i" "i < int (length E0)" "nat i \<notin> V"
    and rec: "E0 ! nat i = JObj kvs" "distinct (map fst kvs)"
  shows "\<exists>s'. merge_page s i = Inr s' \<and> merge_inv E0 (insert (nat i) V) p1 {} s' \<and>
           resolve (fst s') (snd s') = merge_record (resolve (fst s) (snd s)) kvs"
proof -
  from inv have len: "length (fst s) = length E0" and Ei: "fst s ! nat i = E0 ! nat i"
    using i(3) by (auto simp: merge_inv_def)
  have pos: "py_position (fst s) i = Inr (nat i)"
    using i len by (simp add: py_position_def)
  have lt: "nat i < length E0" using i by simp
  show ?thesis
  proof (cases "kvs = []")
    case True
    then have "merge_page s i = Inr s"
      using i len pos Ei rec by (simp add: merge_page_def bind_err_def)
    then show ?thesis
      using True merge_inv_visited[OF merge_inv_any[OF inv, of "nat i"], of p1]
      by (simp add: merge_record_alt)
  next
    case False
    then have mp: "merge_page s i = Inr (foldl (merge_field (nat i)) s kvs)"
      using i len pos Ei rec by (simp add: merge_page_def bind_err_def)
    from merge_fields[OF i(3) lt rec merge_inv_any[OF inv, of "nat i"], of kvs] rec(2)
    have "merge_inv E0 V (nat i) ({} \<union> fst ` set kvs) (foldl (merge_field (nat i)) s kvs)"
      and "resolve (fst (foldl (merge_field (nat i)) s kvs)) (snd (foldl (merge_field (nat i)) s kvs))
           = foldl spec_step (resolve (fst s) (snd s)) kvs"
      by simp_all
    then show ?thesis
      using mp merge_inv_visited by (auto simp: merge_record_alt)
  qed
qed

lemma combine_pages_spec:
  "distinct flat \<Longrightarrow>
   \<forall>i \<in> set flat. 0 \<le> i \<and> i < int (length E0) \<and> nat i \<notin> V \<and>
      (\<exists>kvs. E0 ! nat i = JObj kvs \<and> distinct (map fst kvs)) \<Longrightarrow>
   merge_inv E0 V p {} s \<Longrightarrow>
   \<exists>s'. combine_pages s flat = Inr s' \<and>
        resolve (fst s') (snd s') = foldl merge_record (resolve (fst s) (snd s)) (map (record_of E0) flat) \<and>
        merge_inv E0 (V \<union> nat ` set flat) p {} s'"
proof (induction flat arbitrary: s V)
  case Nil
  then show ?case by simp
next
  case (Cons i flat)
  from Cons.prems(2) obtain kvs where
    i: "0 \<le> i" "i < int (length E0)" "nat i \<notin> V" and
    rec: "E0 ! nat i = JObj kvs" "distinct (map fst kvs)"
    by auto
  from merge_page_step[OF Cons.prems(3) i rec, of p] obtain s1 where
    s1: "merge_page s i = Inr s1" "merge_inv E0 (insert (nat i) V) p {} s1"
      "resolve (fst s1) (snd s1) = merge_record (resolve (fst s) (snd s)) kvs"
    by blast
  have d: "distinct flat" using Cons.prems(1) by simp
  have rest: "\<forall>j \<in> set flat. 0 \<le> j \<and> j < int (length E0) \<and> nat j \<notin> insert (nat i) V \<and>
      (\<exists>kvs. E0 ! nat j = JObj kvs \<and> distinct (map fst kvs))"
  proof
    fix j assume j: "j \<in> set flat"
    with Cons.prems(1) have "j \<noteq> i" by auto
    moreover from Cons.prems(2) j have "0 \<le> j" by simp
    ultimately have "nat j \<noteq> nat i" using i(1) by simp
    then show "0 \<le> j \<and> j < int (length E0) \<and> nat j \<notin> insert (nat i) V \<and>
      (\<exists>kvs. E0 ! nat j = JObj kvs \<and> distinct (map fst kvs))"
      using Cons.prems(2) j by simp
  qed
  from Cons.IH[OF d rest s1(2)] obtain s' where
    s': "combine_pages s1 flat = Inr s'"
      "resolve (fst s') (snd s') = foldl merge_record (resolve (fst s1) (snd s1)) (map (record_of E0) flat)"
      "merge_inv E0 (insert (nat i) V \<union> nat ` set flat) p {} s'"
    by blast
  have "record_of E0 i = kvs" using rec by (simp add: record_of_def)
  then show ?case using s1 s' by (simp add: bind_err_def)
qed

lemma merge_inv_init: "merge_inv E {} p {} (E, [])"
  by (simp add: merge_inv_def)

lemma combine_group_spec:
  assumes "distinct flat"
    and "\<forall>i \<in> set flat. 0 \<le> i \<and> i < int (length E) \<and>
           (\<exists>kvs. E ! nat i = JObj kvs \<and> distinct (map fst kvs))"
  shows "resolved (combine_pages (E, []) flat) = Inr (merge_records (map (record_of E) flat))"
    and "resolved (combine_group E flat) =
           Inr (dict_set (merge_records (map (record_of E) flat)) ''pages_used'' (JList (map JInt flat)))"
    and "\<exists>E' c. combine_group E flat = Inr (E', c) \<and> length E' = length E \<and>
           (\<forall>q. q \<notin> nat ` set flat \<longrightarrow> E' ! q = E ! q)"
proof -
  have pre: "\<forall>i \<in> set flat. 0 \<le> i \<and> i < int (length E) \<and> nat i \<notin> {} \<and>
      (\<exists>kvs. E ! nat i = JObj kvs \<and> distinct (map fst kvs))"
    using assms(2) by simp
  from combine_pages_spec[OF assms(1) pre merge_inv_init, of 0] obtain s' where
    s': "combine_pages (E, []) flat = Inr s'"
      "resolve (fst s') (snd s') = foldl merge_record (resolve E []) (map (record_of E) flat)"
      "merge_inv E ({} \<union> nat ` set flat) 0 {} s'"
    by auto
  obtain E' c where ec: "s' = (E', c)" by (cases s')
  have r0: "resolve E [] = []" by (simp add: resolve_def)
  show "resolved (combine_pages (E, []) flat) = Inr (merge_records (map (record_of E) flat))"
    using s' ec r0 by (simp add: resolved_def bind_err_def merge_records_def)
  show "resolved (combine_group E flat) =
           Inr (dict_set (merge_records (map (record_of E) flat)) ''pages_used'' (JList (map JInt flat)))"
    using s' ec r0
    by (simp add: resolved_def combine_group_def bind_err_def merge_records_def
        resolve_dict_set resolve_cell_def)
  show "\<exists>E' c. combine_group E flat = Inr (E', c) \<and> length E' = length E \<and>
           (\<forall>q. q \<notin> nat ` set flat \<longrightarrow> E' ! q = E ! q)"
    using s' ec by (simp add: combine_group_def bind_err_def merge_inv_def)
qed

lemma resolve_cong_cells:
  "cells_within V c \<Longrightarrow> \<forall>q \<in> V. E1 ! q = E2 ! q \<Longrightarrow> resolve E1 c = resolve E2 c"
proof (induction c)
  case Nil
  then show ?case by (simp add: resolve_def)
next
  case (Cons kx c)
  obtain k x where kx: "kx = (k, x)" by (cases kx)
  from Cons.prems(1) have cw: "cells_within V c" by (auto simp: cells_within_def)
  have "resolve_cell E1 k x = resolve_cell E2 k x"
  proof (cases x)
    case (ListOf q)
    with Cons.prems(1) have "q \<in> V" by (auto simp: cells_within_def kx)
    with Cons.prems(2) show ?thesis by (simp add: ListOf resolve_cell_def page_list_def)
  qed (simp add: resolve_cell_def)
  with Cons.IH[OF cw Cons.prems(2)] show ?case by (simp add: resolve_alt kx)
qed

lemma combine_group_frame:
  assumes "distinct flat"
    and "\<forall>i \<in> set flat. 0 \<le> i \<and> i < int (length E0) \<and> nat i \<notin> V \<and>
           (\<exists>kvs. E0 ! nat i = JObj kvs \<and> distinct (map fst kvs))"
    and "length E = length E0" "\<forall>q. q \<notin> V \<longrightarrow> E ! q = E0 ! q"
  shows "\<exists>E' c. combine_group E flat = Inr (E', c) \<and> resolve E' c = merge_group E0 flat \<and>
           cells_within (nat ` set flat) c \<and> length E' = length E0 \<and>
           (\<forall>q. q \<notin> nat ` set flat \<longrightarrow> E' ! q = E ! q)"
proof -
  have inv0: "merge_inv E0 V 0 {} (E, [])"
    using assms(3,4) by (simp add: merge_inv_def)
  from combine_pages_spec[OF assms(1,2) inv0] obtain s' where
    s': "combine_pages (E, []) flat = Inr s'"
      "resolve (fst s') (snd s') = foldl merge_record (resolve E []) (map (record_of E0) flat)"
      "merge_inv E0 (V \<union> nat ` set flat) 0 {} s'"
    by auto
  obtain E' c where ec: "s' = (E', c)" by (cases s')
  have inv1: "merge_inv E {} 0 {} (E, [])" by (rule merge_inv_init)
  have pre: "\<forall>i \<in> set flat. 0 \<le> i \<and> i < int (length E) \<and> nat i \<notin> {} \<and>
           (\<exists>kvs. E ! nat i = JObj kvs \<and> distinct (map fst kvs))"
    using assms(2,3,4) by auto
  from combine_pages_spec[OF assms(1) pre inv1] s'(1)
  have inv2: "merge_inv E ({} \<union> nat ` set flat) 0 {} s'" by auto
  have r0: "resolve E [] = []" by (simp add: resolve_def)
  have cw: "cells_within (nat ` set flat) c"
    using inv2 ec by (auto simp: merge_inv_def cells_within_def)
  have cw': "cells_within (nat ` set flat) (dict_set c ''pages_used'' (Val (JList (map JInt flat))))"
    using cw set_dict_set[of c "''pages_used''" "Val (JList (map JInt flat))"]
    by (auto simp: cells_within_def)
  have "combine_group E flat = Inr (E', dict_set c ''pages_used'' (Val (JList (map JInt flat))))"
    using s'(1) ec by (simp add: combine_group_def bind_err_def)
  moreover have "resolve E' (dict_set c ''pages_used'' (Val (JList (map JInt flat)))) = merge_group E0 flat"
    using s'(2) ec r0
    by (simp add: merge_group_def merge_records_def resolve_dict_set resolve_cell_def)
  moreover have "length E' = length E0" "\<forall>q. q \<notin> nat ` set flat \<longrightarrow> E' ! q = E ! q"
    using inv2 s'(3) ec by (auto simp: merge_inv_def)
  ultimately show ?thesis using cw' by simp
qed

lemma group_loop_spec:
  "distinct (emitted_indices g) \<Longrightarrow>
   \<forall>i \<in> set (emitted_indices g). 0 \<le> i \<and> i < int (length E0) \<and> nat i \<notin> V \<and>
      (\<exists>kvs. E0 ! nat i = JObj kvs \<and> distinct (map fst kvs)) \<Longrightarrow>
   length E = length E0 \<Longrightarrow> \<forall>q. q \<notin> V \<longrightarrow> E ! q = E0 ! q \<Longrightarrow>
   \<exists>E' gs. group_loop E g = Inr (E', gs) \<and> length E' = length E0 \<and>
     (\<forall>q. q \<notin> V \<union> nat ` set (emitted_indices g) \<longrightarrow> E' ! q = E0 ! q) \<and>
     (\<forall>q. q \<notin> nat ` set (emitted_indices g) \<longrightarrow> E' ! q = E ! q) \<and>
     map (\<lambda>(t, spans, c). (t, spans, resolve E' c)) gs =
       map (\<lambda>(t, spans). (t, spans, merge_group E0 (pages_flat spans)))
         (filter (\<lambda>(t, spans). spans \<noteq> [] \<and> hd spans \<noteq> []) g)"
proof (induction g arbitrary: E V)
  case Nil
  then show ?case by simp
next
  case (Cons ts g)
  obtain t spans where ts: "ts = (t, spans)" by (cases ts)
  let ?flat = "pages_flat spans"
  have em: "emitted_indices (ts # g) = ?flat @ emitted_indices g"
    by (simp add: emitted_indices_def ts)
  from Cons.prems(1) have d1: "distinct ?flat" and d2: "distinct (emitted_indices g)"
    and dj: "set ?flat \<inter> set (emitted_indices g) = {}"
    by (simp_all add: em)
  have p1: "\<forall>i \<in> set ?flat. 0 \<le> i \<and> i < int (length E0) \<and> nat i \<notin> V \<and>
      (\<exists>kvs. E0 ! nat i = JObj kvs \<and> distinct (map fst kvs))"
    using Cons.prems(2) by (simp add: em)
  from combine_group_frame[OF d1 p1 Cons.prems(3,4)] obtain E1 c where
    g1: "combine_group E ?flat = Inr (E1, c)" "resolve E1 c = merge_group E0 ?flat"
      "cells_within (nat ` set ?flat) c" "length E1 = length E0"
      "\<forall>q. q \<notin> nat ` set ?flat \<longrightarrow> E1 ! q = E ! q"
    by blast
  let ?V = "V \<union> nat ` set ?flat"
  have p2: "\<forall>i \<in> set (emitted_indices g). 0 \<le> i \<and> i < int (length E0) \<and> nat i \<notin> ?V \<and>
      (\<exists>kvs. E0 ! nat i = JObj kvs \<and> distinct (map fst kvs))"
  proof
    fix i assume i: "i \<in> set (emitted_indices g)"
    with Cons.prems(2) have a: "0 \<le> i \<and> i < int (length E0) \<and> nat i \<notin> V \<and>
      (\<exists>kvs. E0 ! nat i = JObj kvs \<and> distinct (map fst kvs))" by (simp add: em)
    have "nat i \<notin> nat ` set ?flat"
    proof
      assume "nat i \<in> nat ` set ?flat"
      then obtain j where j: "j \<in> set ?flat" "nat i = nat j" by auto
      from p1 j(1) have "0 \<le> j" by simp
      moreover from a have "0 \<le> i" by simp
      ultimately have "i = j" using j(2) by linarith
      with i j(1) dj show False by auto
    qed
    with a show "0 \<le> i \<and> i < int (length E0) \<and> nat i \<notin> ?V \<and>
      (\<exists>kvs. E0 ! nat i = JObj kvs \<and> distinct (map fst kvs))" by simp
  qed
  have f1: "\<forall>q. q \<notin> ?V \<longrightarrow> E1 ! q = E0 ! q"
    using g1(5) Cons.prems(4) by auto
  show ?case
  proof (cases "spans \<noteq> [] \<and> hd spans \<noteq> []")
    case True
    from Cons.IH[OF d2 p2 g1(4) f1] obtain E2 gs where
      r: "group_loop E1 g = Inr (E2, gs)" "length E2 = length E0"
        "\<forall>q. q \<notin> ?V \<union> nat ` set (emitted_indices g) \<longrightarrow> E2 ! q = E0 ! q"
        "\<forall>q. q \<notin> nat ` set (emitted_indices g) \<longrightarrow> E2 ! q = E1 ! q"
        "map (\<lambda>(t, spans, c). (t, spans, resolve E2 c)) gs =
           map (\<lambda>(t, spans). (t, spans, merge_group E0 (pages_flat spans)))
             (filter (\<lambda>(t, spans). spans \<noteq> [] \<and> hd spans \<noteq> []) g)"
      by blast
    have "\<forall>q \<in> nat ` set ?flat. E2 ! q = E1 ! q"
    proof
      fix q assume q: "q \<in> nat ` set ?flat"
      have "q \<notin> nat ` set (emitted_indices g)"
      proof
        assume "q \<in> nat ` set (emitted_indices g)"
        then obtain i where i: "i \<in> set (emitted_indices g)" "q = nat i" by auto
        with p2 q show False by auto
      qed
      with r(4) show "E2 ! q = E1 ! q" by simp
    qed
    from resolve_cong_cells[OF g1(3) this] have rc: "resolve E2 c = merge_group E0 ?flat"
      using g1(2) by simp
    have gl: "group_loop E (ts # g) = Inr (E2, (t, spans, c) # gs)"
      using True g1(1) r(1) by (simp add: ts bind_err_def)
    have fr: "\<forall>q. q \<notin> nat ` set (emitted_indices (ts # g)) \<longrightarrow> E2 ! q = E ! q"
      using r(4) g1(5) by (simp add: em image_Un)
    have fr0: "\<forall>q. q \<notin> V \<union> nat ` set (emitted_indices (ts # g)) \<longrightarrow> E2 ! q = E0 ! q"
      using r(3) by (simp add: em image_Un Un_assoc)
    show ?thesis
      using gl r(2) fr fr0 rc r(5) True by (simp add: ts)
  next
    case False
    have p2': "\<forall>i \<in> set (emitted_indices g). 0 \<le> i \<and> i < int (length E0) \<and> nat i \<notin> V \<and>
      (\<exists>kvs. E0 ! nat i = JObj kvs \<and> distinct (map fst kvs))"
      using p2 by simp
    from Cons.IH[OF d2 p2' Cons.prems(3,4)] obtain E2 gs where
      r: "group_loop E g = Inr (E2, gs)" "length E2 = length E0"
        "\<forall>q. q \<notin> V \<union> nat ` set (emitted_indices g) \<longrightarrow> E2 ! q = E0 ! q"
        "\<forall>q. q \<notin> nat ` set (emitted_indices g) \<longrightarrow> E2 ! q = E ! q"
        "map (\<lambda>(t, spans, c). (t, spans, resolve E2 c)) gs =
           map (\<lambda>(t, spans). (t, spans, merge_group E0 (pages_flat spans)))
             (filter (\<lambda>(t, spans). spans \<noteq> [] \<and> hd spans \<noteq> []) g)"
      by blast
    have fr: "\<forall>q. q \<notin> nat ` set (emitted_indices (ts # g)) \<longrightarrow> E2 ! q = E ! q"
      using r(4) by (simp add: em image_Un)
    have fr0: "\<forall>q. q \<notin> V \<union> nat ` set (emitted_indices (ts # g)) \<longrightarrow> E2 ! q = E0 ! q"
      using r(3) by (simp add: em image_Un)
    have gl: "group_loop E (ts # g) = Inr (E2, gs)"
      using False r(1) by (auto simp: ts)
    show ?thesis
      using False gl r(2,5) fr fr0 by (auto simp: ts)
  qed
qed

lemma setdefault_append_nonempty:
  "c \<noteq> [] \<Longrightarrow> \<forall>(t, spans) \<in> set g. spans \<noteq> [] \<and> hd spans \<noteq> [] \<Longrightarrow>
   \<forall>(t, spans) \<in> set (setdefault_append g k c). spans \<noteq> [] \<and> hd spans \<noteq> []"
  by (induction g) (auto split: if_splits)

lemma collect_nonempty:
  "\<forall>r \<in> set rs. snd r \<noteq> [] \<Longrightarrow> \<forall>(t, spans) \<in> set g. spans \<noteq> [] \<and> hd spans \<noteq> [] \<Longrightarrow>
   \<forall>(t, spans) \<in> set (collect rs g). spans \<noteq> [] \<and> hd spans \<noteq> []"
proof (induction rs arbitrary: g)
  case Nil
  then show ?case by simp
next
  case (Cons r rs)
  obtain t c where r: "r = (t, c)" by (cases r)
  from Cons.prems(1) have c: "c \<noteq> []" by (simp add: r)
  from Cons.prems(1) have rest: "\<forall>r \<in> set rs. snd r \<noteq> []" by simp
  from Cons.IH[OF rest setdefault_append_nonempty[OF c Cons.prems(2)]]
  show ?case by (simp add: r)
qed

lemma chunk_groups_nonempty:
  "filter (\<lambda>(t, spans). spans \<noteq> [] \<and> hd spans \<noteq> []) (chunk_consecutive_by_type prs)
   = chunk_consecutive_by_type prs"
proof -
  have "\<forall>r \<in> set (runs prs). snd r \<noteq> []" using runs_nonempty by blast
  from collect_nonempty[OF this, of "[]"]
  have "\<forall>(t, spans) \<in> set (chunk_consecutive_by_type prs). spans \<noteq> [] \<and> hd spans \<noteq> []"
    by (simp add: chunk_collect)
  then show ?thesis by (intro filter_True) auto
qed

lemma emitted_chunk_mset:
  "mset (emitted_indices (chunk_consecutive_by_type prs)) = mset (map page_index prs)"
  using emitted_collect[of "runs prs" "[]"]
  by (simp add: chunk_collect runs_indices emitted_indices_def)

lemma grouped_results_spec:
  assumes "distinct (map page_index prs)"
    and "\<forall>p \<in> set prs. 0 \<le> page_index p \<and> page_index p < int (length E) \<and>
           (\<exists>kvs. E ! nat (page_index p) = JObj kvs \<and> distinct (map fst kvs))"
  shows "grouped_results prs E =
           Inr (map (\<lambda>(t, spans). \<lparr>group_type = t, page_spans = spans,
                                   data = merge_group E (pages_flat spans)\<rparr>)
                  (chunk_consecutive_by_type prs))"
proof -
  let ?g = "chunk_consecutive_by_type prs"
  have d: "distinct (emitted_indices ?g)"
    using assms(1) emitted_chunk_mset[of prs] by (metis mset_eq_imp_distinct_iff)
  have s: "set (emitted_indices ?g) = page_index ` set prs"
    using emitted_chunk_mset[of prs] by (metis mset_eq_setD set_map)
  have pre: "\<forall>i \<in> set (emitted_indices ?g). 0 \<le> i \<and> i < int (length E) \<and> nat i \<notin> {} \<and>
      (\<exists>kvs. E ! nat i = JObj kvs \<and> distinct (map fst kvs))"
    using assms(2) s by auto
  from group_loop_spec[OF d pre, of E] obtain E' gs where
    r: "group_loop E ?g = Inr (E', gs)"
       "map (\<lambda>(t, spans, c). (t, spans, resolve E' c)) gs =
         map (\<lambda>(t, spans). (t, spans, merge_group E (pages_flat spans)))
           (filter (\<lambda>(t, spans). spans \<noteq> [] \<and> hd spans \<noteq> []) ?g)"
    by auto
  have "map (\<lambda>(t, spans, c). \<lparr>group_type = t, page_spans = spans, data = resolve E' c\<rparr>) gs
      = map (\<lambda>(t, spans, d). \<lparr>group_type = t, page_spans = spans, data = d\<rparr>)
          (map (\<lambda>(t, spans, c). (t, spans, resolve E' c)) gs)"
    by (simp add: case_prod_beta)
  also have "\<dots> = map (\<lambda>(t, spans, d). \<lparr>group_type = t, page_spans = spans, data = d\<rparr>)
          (map (\<lambda>(t, spans). (t, spans, merge_group E (pages_flat spans))) ?g)"
    by (simp only: r(2) chunk_groups_nonempty)
  also have "\<dots> = map (\<lambda>(t, spans). \<lparr>group_type = t, page_spans = spans,
                                   data = merge_group E (pages_flat spans)\<rparr>) ?g"
    by (simp add: case_prod_beta)
  finally show ?thesis using r(1) by (simp add: grouped_results_def bind_err_def)
qed

lemma map_of_spec_steps:
  "distinct (map fst page) \<Longrightarrow>
   map_of (foldl spec_step acc page) k =
     (case map_of page k of
        None \<Rightarrow> map_of acc k
      | Some v \<Rightarrow> Some (merge_value (map_of acc k) v))"
proof (induction page arbitrary: acc)
  case Nil
  then show ?case by simp
next
  case (Cons kv page)
  obtain k' v' where kv: "kv = (k', v')" by (cases kv)
  from Cons.prems have d: "distinct (map fst page)" and fresh: "k' \<notin> fst ` set page"
    by (simp_all add: kv)
  have none: "map_of page k' = None" using fresh by (simp add: map_of_eq_None_iff)
  show ?case
    using Cons.IH[OF d, of "spec_step acc kv"] none
    by (auto simp: kv spec_step_def map_of_dict_set split: option.splits)
qed

text \<open>
  Claim C2. For a group whose pages are listed without repetition (as ascending page
  indices are), lie in range and have JSON objects as extraction records, the merge loop
  of the endpoints computes the field-by-field merge of the specification over the pages
  in the order listed, and then sets \<^verbatim>\<open>pages_used\<close> to the flattened span; the same
  holds for every group of a whole document when its page indices are pairwise distinct.
  Field by field: a key of the page takes \<open>merge_value\<close> of the accumulator's entry and the
  page's value, every other key keeps its entry; \<open>merge_value\<close> takes the page's value for
  an absent entry, appends the page's list to a list, replaces null by a non-null value,
  and keeps the accumulator's value otherwise.
\<close>

theorem merge_law:
  "(distinct flat \<and>
    (\<forall>i \<in> set flat. 0 \<le> i \<and> i < int (length E) \<and>
       (\<exists>kvs. E ! nat i = JObj kvs \<and> distinct (map fst kvs))) \<longrightarrow>
      resolved (combine_pages (E, []) flat) = Inr (merge_records (map (record_of E) flat)) \<and>
      resolved (combine_group E flat) = Inr (merge_group E flat)) \<and>
   (distinct (map page_index prs) \<and>
    (\<forall>p \<in> set prs. 0 \<le> page_index p \<and> page_index p < int (length E) \<and>
       (\<exists>kvs. E ! nat (page_index p) = JObj kvs \<and> distinct (map fst kvs))) \<longrightarrow>
      grouped_results prs E =
        Inr (map (\<lambda>(t, spans). \<lparr>group_type = t, page_spans = spans,
                                data = merge_group E (pages_flat spans)\<rparr>)
               (chunk_consecutive_by_type prs))) \<and>
   (distinct (map fst page) \<longrightarrow>
      map_of (merge_record acc page) k =
        (case map_of page k of
           None \<Rightarrow> map_of acc k
         | Some v \<Rightarrow> Some (merge_value (map_of acc k) v))) \<and>
   merge_value None v = v \<and>
   merge_value (Some (JList xs)) (JList ys) = JList (xs @ ys) \<and>
   (v \<noteq> JNull \<longrightarrow> merge_value (Some JNull) v = v) \<and>
   merge_value (Some JNull) JNull = JNull \<and>
   ((\<forall>zs. v \<noteq> JList zs) \<longrightarrow> merge_value (Some (JList xs)) v = JList xs) \<and>
   (a \<noteq> JNull \<and> (\<forall>zs. a \<noteq> JList zs) \<longrightarrow> merge_value (Some a) v = a) \<and>
   map_of (merge_group E flat) ''pages_used'' = Some (JList (map JInt flat))"
proof -
  have rules: "merge_value None v = v"
      "merge_value (Some (JList xs)) (JList ys) = JList (xs @ ys)"
      "v \<noteq> JNull \<longrightarrow> merge_value (Some JNull) v = v"
      "merge_value (Some JNull) JNull = JNull"
    by (simp_all add: merge_value_def)
  have keep_list: "(\<forall>zs. v \<noteq> JList zs) \<longrightarrow> merge_value (Some (JList xs)) v = JList xs"
    by (cases v) (simp_all add: merge_value_def)
  have keep: "a \<noteq> JNull \<and> (\<forall>zs. a \<noteq> JList zs) \<longrightarrow> merge_value (Some a) v = a"
    by (cases a) (simp_all add: merge_value_def)
  have used: "map_of (merge_group E flat) ''pages_used'' = Some (JList (map JInt flat))"
    by (simp add: merge_group_def map_of_dict_set)
  have fields: "distinct (map fst page) \<longrightarrow>
      map_of (merge_record acc page) k =
        (case map_of page k of
           None \<Rightarrow> map_of acc k
         | Some v \<Rightarrow> Some (merge_value (map_of acc k) v))"
    using map_of_spec_steps[of page acc k] by (simp add: merge_record_alt)
  have group: "resolved (combine_pages (E, []) flat) = Inr (merge_records (map (record_of E) flat)) \<and>
      resolved (combine_group E flat) = Inr (merge_group E flat)"
    if "distinct flat \<and>
        (\<forall>i \<in> set flat. 0 \<le> i \<and> i < int (length E) \<and>
           (\<exists>kvs. E ! nat i = JObj kvs \<and> distinct (map fst kvs)))"
    using combine_group_spec(1,2)[of flat E] that by (simp add: merge_group_def)
  have endpoint: "grouped_results prs E =
        Inr (map (\<lambda>(t, spans). \<lparr>group_type = t, page_spans = spans,
                                data = merge_group E (pages_flat spans)\<rparr>)
               (chunk_consecutive_by_type prs))"
    if "distinct (map page_index prs) \<and>
        (\<forall>p \<in> set prs. 0 \<le> page_index p \<and> page_index p < int (length E) \<and>
           (\<exists>kvs. E ! nat (page_index p) = JObj kvs \<and> distinct (map fst kvs)))"
    using grouped_results_spec[of prs E] that by blast
  show ?thesis
    using rules keep_list keep used fields group endpoint by blast
qed

text \<open>The three merges of the specification's merge law, run through the loop of the
  endpoint, and the end-to-end example: two invoice pages and an e-way bill.\<close>

theorem merge_law_witness:
  "resolved (combine_pages ([JObj [(''a'', JInt 1)], JObj [(''a'', JNull)]], []) [0, 1])
     = Inr [(''a'', JInt 1)] \<and>
   resolved (combine_pages ([JObj [(''items'', JList [JInt 1])], JObj [(''items'', JList [JInt 2])]], []) [0, 1])
     = Inr [(''items'', JList [JInt 1, JInt 2])] \<and>
   resolved (combine_pages ([JObj [(''a'', JNull)], JObj [(''a'', JInt 5)]], []) [0, 1])
     = Inr [(''a'', JInt 5)] \<and>
   resolved (combine_group [JObj [(''a'', JInt 1)], JObj [(''a'', JNull)]] [0, 1])
     = Inr [(''a'', JInt 1), (''pages_used'', JList [JInt 0, JInt 1])] \<and>
   merge_records [[(''a'', JInt 1)], [(''a'', JNull)]] = [(''a'', JInt 1)] \<and>
   grouped_results
     [mk_page 0 ''TaxInvoice'', mk_page 1 ''TaxInvoice'', mk_page 2 ''EWayBill'']
     [JObj [(''invoice_no'', JStr ''A-17''), (''items'', JList [JInt 1]), (''pages_used'', JList [JInt 0])],
      JObj [(''invoice_no'', JNull), (''items'', JList [JInt 2]), (''pages_used'', JList [JInt 1])],
      JObj [(''pages_used'', JList [JInt 2])]]
   = Inr [\<lparr>group_type = ''TaxInvoice'', page_spans = [[0, 1]],
            data = [(''invoice_no'', JStr ''A-17''), (''items'', JList [JInt 1, JInt 2]),
                    (''pages_used'', JList [JInt 0, JInt 1])]\<rparr>,
          \<lparr>group_type = ''EWayBill'', page_spans = [[2]],
            data = [(''pages_used'', JList [JInt 2])]\<rparr>]"
proof -
  have e1: "resolved (combine_pages ([JObj [(''a'', JInt 1)], JObj [(''a'', JNull)]], []) [0, 1])
     = Inr (merge_records (map (record_of [JObj [(''a'', JInt 1)], JObj [(''a'', JNull)]]) [0, 1])) \<and>
     resolved (combine_group [JObj [(''a'', JInt 1)], JObj [(''a'', JNull)]] [0, 1])
     = Inr (merge_group [JObj [(''a'', JInt 1)], JObj [(''a'', JNull)]] [0, 1])"
    using merge_law[of "[0, 1]" "[JObj [(''a'', JInt 1)], JObj [(''a'', JNull)]]"]
    by simp
  have m1: "merge_records [[(''a'', JInt 1)], [(''a'', JNull)]] = [(''a'', JInt 1)]"
    by (simp add: merge_records_def merge_record_def merge_value_def)
  have e2: "resolved (combine_pages ([JObj [(''items'', JList [JInt 1])], JObj [(''items'', JList [JInt 2])]], []) [0, 1])
     = Inr [(''items'', JList [JInt 1, JInt 2])]"
    by (simp add: resolved_def bind_err_def merge_page_def py_position_def resolve_def
        cell_of_def extend_page_list_def page_list_def)
  have e3: "resolved (combine_pages ([JObj [(''a'', JNull)], JObj [(''a'', JInt 5)]], []) [0, 1])
     = Inr [(''a'', JInt 5)]"
    by (simp add: resolved_def bind_err_def merge_page_def py_position_def resolve_def
        cell_of_def extend_page_list_def page_list_def)
  have e4: "grouped_results
     [mk_page 0 ''TaxInvoice'', mk_page 1 ''TaxInvoice'', mk_page 2 ''EWayBill'']
     [JObj [(''invoice_no'', JStr ''A-17''), (''items'', JList [JInt 1]), (''pages_used'', JList [JInt 0])],
      JObj [(''invoice_no'', JNull), (''items'', JList [JInt 2]), (''pages_used'', JList [JInt 1])],
      JObj [(''pages_used'', JList [JInt 2])]]
   = Inr [\<lparr>group_type = ''TaxInvoice'', page_spans = [[0, 1]],
            data = [(''invoice_no'', JStr ''A-17''), (''items'', JList [JInt 1, JInt 2]),
                    (''pages_used'', JList [JInt 0, JInt 1])]\<rparr>,
          \<lparr>group_type = ''EWayBill'', page_spans = [[2]],
            data = [(''pages_used'', JList [JInt 2])]\<rparr>]"
    by (simp add: grouped_results_def chunk_consecutive_by_type_def mk_page_def bind_err_def
        combine_group_def pages_flat_def merge_page_def py_position_def resolve_def
        cell_of_def extend_page_list_def page_list_def)
  show ?thesis
    using e1 m1 e2 e3 e4
    by (simp add: record_of_def merge_group_def)
qed

text \<open>Why the hypothesis on repetitions: when the replies make one page occur three times
  in a group, the accumulator's list is the page's own list, and each further visit extends
  it by itself.\<close>

lemma merge_repeated_page:
  "resolved (combine_group [JObj [(''items'', JList [JInt 1])]] [0, 0, 0])
     = Inr [(''items'', JList [JInt 1, JInt 1, JInt 1, JInt 1]),
            (''pages_used'', JList [JInt 0, JInt 0, JInt 0])] \<and>
   merge_records [[(''items'', JList [JInt 1])], [(''items'', JList [JInt 1])],
                  [(''items'', JList [JInt 1])]]
     = [(''items'', JList [JInt 1, JInt 1, JInt 1])]"
  by (simp add: resolved_def combine_group_def bind_err_def merge_page_def py_position_def
      resolve_def cell_of_def extend_page_list_def page_list_def merge_records_def
      merge_record_def merge_value_def)

section \<open>Properties of the reply parser\<close>

lemma fence_not_space: "\<not> is_space 96" "\<not> is_space 123" "\<not> is_space 125" "\<not> is_space 106"
  "\<not> is_space BOM"
  by (simp_all add: is_space_def BOM_def)

lemma dropWhile_spaces: "\<forall>c \<in> set ws. is_space c \<Longrightarrow> \<not> is_space x \<Longrightarrow>
  dropWhile is_space (ws @ x # s) = x # s"
  by (induction ws) auto

lemma search_skips_prefix: "96 \<notin> set pre \<Longrightarrow> search_fenced (pre @ s) = search_fenced s"
  by (induction pre) (auto simp: match_here_def FENCE_def)

lemma closes_fence: "\<forall>c \<in> set ws. is_space c \<Longrightarrow> closes (ws @ FENCE @ post)"
  using dropWhile_spaces[of ws 96 "[96, 96] @ post"]
  by (simp add: closes_def FENCE_def fence_not_space)

lemma not_closes: "x \<noteq> 96 \<Longrightarrow> \<not> is_space x \<Longrightarrow> \<forall>c \<in> set ws. is_space c \<Longrightarrow>
  \<not> closes (ws @ x # s)"
  using dropWhile_spaces[of ws x s] by (simp add: closes_def FENCE_def)

lemma not_closes_inner:
  "96 \<notin> set inner \<Longrightarrow> \<not> closes (inner @ 125 # s)"
proof -
  assume nb: "96 \<notin> set inner"
  let ?l = "inner @ 125 # s"
  have "dropWhile is_space ?l \<noteq> []"
    by (simp add: dropWhile_eq_Nil_conv fence_not_space)
  then obtain x r where xr: "dropWhile is_space ?l = x # r" by (cases "dropWhile is_space ?l") auto
  have "x \<in> set (dropWhile is_space (inner @ [125]))"
  proof -
    have "dropWhile is_space ?l = dropWhile is_space (inner @ [125]) @ s"
      by (metis (no_types, lifting) append.assoc append_Cons append_Nil dropWhile_append1
          fence_not_space(3) in_set_conv_decomp)
    moreover have "dropWhile is_space (inner @ [125]) \<noteq> []"
      by (simp add: dropWhile_eq_Nil_conv fence_not_space)
    ultimately show ?thesis using xr
      by (cases "dropWhile is_space (inner @ [125])") auto
  qed
  then have "x \<in> set (inner @ [125])" by (rule set_dropWhileD)
  then have "x \<noteq> 96" using nb by auto
  then show ?thesis using xr by (simp add: closes_def FENCE_def)
qed

lemma lazy_body_full:
  "96 \<notin> set inner \<Longrightarrow> \<forall>c \<in> set ws. is_space c \<Longrightarrow>
   lazy_body (inner @ 125 # ws @ FENCE @ post) = Some (inner @ [125])"
proof (induction inner)
  case Nil
  then show ?case using closes_fence[of ws post] by simp
next
  case (Cons c inner)
  have "\<not> closes (inner @ 125 # ws @ FENCE @ post)"
    using Cons.prems(1) by (intro not_closes_inner) simp
  then show ?case using Cons by simp
qed

lemma match_here_fenced:
  assumes "tag = [] \<or> tag = JSON_TAG" "\<forall>c \<in> set ws. is_space c" "\<forall>c \<in> set ws'. is_space c"
    "96 \<notin> set inner"
  shows "match_here (FENCE @ tag @ ws @ 123 # inner @ 125 # ws' @ FENCE @ post)
           = Some (123 # inner @ [125])"
proof -
  let ?rest = "ws @ 123 # inner @ 125 # ws' @ FENCE @ post"
  have dw: "dropWhile is_space ?rest = 123 # inner @ 125 # ws' @ FENCE @ post"
    using dropWhile_spaces[OF assms(2) fence_not_space(2)] by simp
  have lb: "lazy_body (inner @ 125 # ws' @ FENCE @ post) = Some (inner @ [125])"
    by (rule lazy_body_full[OF assms(4,3)])
  from assms(1) show ?thesis
  proof
    assume t: "tag = []"
    have "take 4 ?rest \<noteq> JSON_TAG"
    proof (cases ws)
      case Nil
      then show ?thesis by (simp add: JSON_TAG_def)
    next
      case (Cons w ws1)
      with assms(2) have "is_space w" by simp
      then have "w \<noteq> 106" using fence_not_space(4) by auto
      then show ?thesis using Cons by (simp add: JSON_TAG_def)
    qed
    then show ?thesis using t dw lb by (simp add: match_here_def FENCE_def)
  next
    assume t: "tag = JSON_TAG"
    then show ?thesis using dw lb by (simp add: match_here_def FENCE_def JSON_TAG_def)
  qed
qed

lemma search_fenced_block:
  assumes "96 \<notin> set pre" "tag = [] \<or> tag = JSON_TAG" "\<forall>c \<in> set ws. is_space c"
    "\<forall>c \<in> set ws'. is_space c" "96 \<notin> set inner"
  shows "search_fenced (pre @ FENCE @ tag @ ws @ 123 # inner @ 125 # ws' @ FENCE @ post)
           = Some (123 # inner @ [125])"
proof -
  have "search_fenced (FENCE @ tag @ ws @ 123 # inner @ 125 # ws' @ FENCE @ post)
           = Some (123 # inner @ [125])"
    using match_here_fenced[OF assms(2-5), of post] by (simp add: FENCE_def)
  then show ?thesis using search_skips_prefix[OF assms(1)] by simp
qed

lemma first_valid_reply_fails:
  "first_valid_reply loads contents = Inl e \<longleftrightarrow>
   e = HTTPException 502 \<and> (\<forall>c \<in> set contents. parse_reply loads c = None)"
  by (induction contents) (auto split: option.splits)

lemma cleaned_strips:
  assumes "\<forall>c \<in> set ws. is_space c" "\<forall>c \<in> set ws'. is_space c"
    "\<not> is_space x" "x \<noteq> BOM" "\<not> is_space y"
  shows "cleaned (ws @ replicate n BOM @ x # s @ y # ws') = x # s @ [y]"
proof -
  have a: "dropWhile is_space (ws @ replicate n BOM @ x # s @ y # ws')
         = replicate n BOM @ x # s @ y # ws'"
  proof (cases n)
    case 0
    then show ?thesis using dropWhile_spaces[OF assms(1,3)] by simp
  next
    case (Suc m)
    then show ?thesis
      using dropWhile_spaces[OF assms(1) fence_not_space(5), of "replicate m BOM @ x # s @ y # ws'"]
      by simp
  qed
  have "rev (replicate n BOM @ x # s @ y # ws') = rev ws' @ y # rev s @ x # replicate n BOM"
    by simp
  moreover have "dropWhile is_space (rev ws' @ y # rev s @ x # replicate n BOM)
      = y # rev s @ x # replicate n BOM"
    using dropWhile_spaces[of "rev ws'" y] assms(2,5) by simp
  ultimately have "py_strip (ws @ replicate n BOM @ x # s @ y # ws') = replicate n BOM @ x # s @ [y]"
    using a by (simp add: py_strip_def)
  moreover have "dropWhile (\<lambda>c. c = BOM) (replicate n BOM @ x # s @ [y]) = x # s @ [y]"
    using assms(4) by (induction n) auto
  ultimately show ?thesis by (simp add: cleaned_def)
qed

text \<open>
  Claim C7, as the code has it. The parser tries, in this order and stopping at the first
  success: the raw text; the text stripped of surrounding whitespace and then of leading
  byte-order marks; the group of the leftmost match of the fence pattern. When all fail,
  nothing is returned for the text, and the loop over the texts of a run raises 502 exactly
  when none of them parses. The pattern finds a fence only when the three backquotes are
  followed by nothing or by \<^verbatim>\<open>json\<close>, then whitespace, then a brace-delimited body closed
  by whitespace and three backquotes: for a text with no backquote before such a fence and
  none inside the body, the search yields exactly the body, and when the raw and the
  cleaned text do not parse, the result is what the body parses to.
\<close>

theorem parse_reply_chain:
  "(loads text = Some v \<longrightarrow> parse_reply loads text = Some v) \<and>
   (loads text = None \<and> loads (cleaned text) = Some v \<longrightarrow> parse_reply loads text = Some v) \<and>
   (loads text = None \<and> loads (cleaned text) = None \<and> search_fenced text = Some g \<longrightarrow>
      parse_reply loads text = loads g) \<and>
   (loads text = None \<and> loads (cleaned text) = None \<and> search_fenced text = None \<longrightarrow>
      parse_reply loads text = None) \<and>
   (first_valid_reply loads contents = Inl e \<longleftrightarrow>
      e = HTTPException 502 \<and> (\<forall>c \<in> set contents. parse_reply loads c = None)) \<and>
   ((\<forall>c \<in> set ws. is_space c) \<and> (\<forall>c \<in> set ws'. is_space c) \<and>
    \<not> is_space x \<and> x \<noteq> BOM \<and> \<not> is_space y \<longrightarrow>
      cleaned (ws @ replicate n BOM @ x # s @ y # ws') = x # s @ [y]) \<and>
   (96 \<notin> set pre \<and> (tag = [] \<or> tag = JSON_TAG) \<and> (\<forall>c \<in> set ws. is_space c) \<and>
    (\<forall>c \<in> set ws'. is_space c) \<and> 96 \<notin> set inner \<longrightarrow>
      search_fenced (pre @ FENCE @ tag @ ws @ 123 # inner @ 125 # ws' @ FENCE @ post)
        = Some (123 # inner @ [125])) \<and>
   (96 \<notin> set pre \<and> (tag = [] \<or> tag = JSON_TAG) \<and> (\<forall>c \<in> set ws. is_space c) \<and>
    (\<forall>c \<in> set ws'. is_space c) \<and> 96 \<notin> set inner \<and>
    loads (pre @ FENCE @ tag @ ws @ 123 # inner @ 125 # ws' @ FENCE @ post) = None \<and>
    loads (cleaned (pre @ FENCE @ tag @ ws @ 123 # inner @ 125 # ws' @ FENCE @ post)) = None \<longrightarrow>
      parse_reply loads (pre @ FENCE @ tag @ ws @ 123 # inner @ 125 # ws' @ FENCE @ post)
        = loads (123 # inner @ [125]))"
proof -
  have chain: "loads text = Some v \<longrightarrow> parse_reply loads text = Some v"
    "loads text = None \<and> loads (cleaned text) = Some v \<longrightarrow> parse_reply loads text = Some v"
    "loads text = None \<and> loads (cleaned text) = None \<and> search_fenced text = Some g \<longrightarrow>
      parse_reply loads text = loads g"
    "loads text = None \<and> loads (cleaned text) = None \<and> search_fenced text = None \<longrightarrow>
      parse_reply loads text = None"
    by (simp_all add: parse_reply_def)
  have fenced: "search_fenced (pre @ FENCE @ tag @ ws @ 123 # inner @ 125 # ws' @ FENCE @ post)
        = Some (123 # inner @ [125])"
    if "96 \<notin> set pre \<and> (tag = [] \<or> tag = JSON_TAG) \<and> (\<forall>c \<in> set ws. is_space c) \<and>
        (\<forall>c \<in> set ws'. is_space c) \<and> 96 \<notin> set inner"
    using that search_fenced_block[of pre tag ws ws' inner post] by blast
  have third: "parse_reply loads (pre @ FENCE @ tag @ ws @ 123 # inner @ 125 # ws' @ FENCE @ post)
        = loads (123 # inner @ [125])"
    if "96 \<notin> set pre \<and> (tag = [] \<or> tag = JSON_TAG) \<and> (\<forall>c \<in> set ws. is_space c) \<and>
        (\<forall>c \<in> set ws'. is_space c) \<and> 96 \<notin> set inner \<and>
        loads (pre @ FENCE @ tag @ ws @ 123 # inner @ 125 # ws' @ FENCE @ post) = None \<and>
        loads (cleaned (pre @ FENCE @ tag @ ws @ 123 # inner @ 125 # ws' @ FENCE @ post)) = None"
    using that fenced by (simp add: parse_reply_def)
  have strip: "cleaned (ws @ replicate n BOM @ x # s @ y # ws') = x # s @ [y]"
    if "(\<forall>c \<in> set ws. is_space c) \<and> (\<forall>c \<in> set ws'. is_space c) \<and>
        \<not> is_space x \<and> x \<noteq> BOM \<and> \<not> is_space y"
    using that cleaned_strips[of ws ws' x y n s] by blast
  show ?thesis
    using chain fenced third strip first_valid_reply_fails[of loads contents e]
    by blast
qed

text \<open>A reply with prose around a \<^verbatim>\<open>json\<close> fence, and one with whitespace and a
  byte-order mark around the object.\<close>

theorem parse_reply_chain_witness:
  "parse_reply (loads_just [123, 125] (JObj []))
     (codepoints ''Result: '' @ FENCE @ JSON_TAG @ [10] @ 123 # [] @ 125 # [10] @ FENCE @ codepoints '' done'')
     = Some (JObj []) \<and>
   search_fenced
     (codepoints ''Result: '' @ FENCE @ JSON_TAG @ [10] @ 123 # [] @ 125 # [10] @ FENCE @ codepoints '' done'')
     = Some [123, 125] \<and>
   cleaned ([32, 10] @ replicate 1 BOM @ 123 # [] @ 125 # [10]) = [123, 125] \<and>
   parse_reply (loads_just [123, 125] (JObj [])) ([32, 10] @ replicate 1 BOM @ 123 # [] @ 125 # [10])
     = Some (JObj [])"
proof -
  let ?t = "codepoints ''Result: '' @ FENCE @ JSON_TAG @ [10] @ 123 # [] @ 125 # [10] @ FENCE @ codepoints '' done''"
  have pre: "96 \<notin> set (codepoints ''Result: '')" by (simp add: codepoints_def)
  have sp: "\<forall>c \<in> set [10]. is_space c" by (simp add: is_space_def)
  have l1: "loads_just [123, 125] (JObj []) ?t = None"
    by (simp add: loads_just_def codepoints_def)
  have c1: "cleaned ?t = ?t"
    by (simp add: cleaned_def py_strip_def codepoints_def FENCE_def JSON_TAG_def is_space_def BOM_def)
  have a: "parse_reply (loads_just [123, 125] (JObj [])) ?t = loads_just [123, 125] (JObj []) (123 # [] @ [125])"
    and b: "search_fenced ?t = Some (123 # [] @ [125])"
    using parse_reply_chain[where loads = "loads_just [123, 125] (JObj [])"
        and pre = "codepoints ''Result: ''" and tag = JSON_TAG and ws = "[10]" and ws' = "[10]"
        and inner = "[]" and post = "codepoints '' done''"]
      pre sp l1 c1 by simp_all
  have sp2: "\<forall>c \<in> set [32, 10]. is_space c" by (simp add: is_space_def)
  have ns: "\<not> is_space 123" "123 \<noteq> BOM" "\<not> is_space 125"
    by (simp_all add: is_space_def BOM_def)
  have c: "cleaned ([32, 10] @ replicate 1 BOM @ 123 # [] @ 125 # [10]) = 123 # [] @ [125]"
    using parse_reply_chain[where ws = "[32, 10]" and ws' = "[10]" and x = 123 and y = 125
        and n = 1 and s = "[]"] sp sp2 ns by blast
  have l2: "loads_just [123, 125] (JObj []) ([32, 10] @ replicate 1 BOM @ 123 # [] @ 125 # [10]) = None"
    by (simp add: loads_just_def)
  have d: "parse_reply (loads_just [123, 125] (JObj [])) ([32, 10] @ replicate 1 BOM @ 123 # [] @ 125 # [10])
     = Some (JObj [])"
    using c l2 by (simp add: parse_reply_def loads_just_def)
  show ?thesis using a b c d by (simp add: loads_just_def)
qed

text \<open>Claim C7 as stated fails: a reply whose first and only fenced block has the
  info string \<^verbatim>\<open>JSON\<close> and holds the object \<^verbatim>\<open>{}\<close> is not matched by the pattern,
  and the reply is refused.\<close>

theorem fenced_other_tag_counterexample:
  "search_fenced (FENCE @ codepoints ''JSON'' @ [10] @ codepoints ''{}'' @ [10] @ FENCE) = None \<and>
   parse_reply (loads_just (codepoints ''{}'') (JObj []))
     (FENCE @ codepoints ''JSON'' @ [10] @ codepoints ''{}'' @ [10] @ FENCE) = None \<and>
   loads_just (codepoints ''{}'') (JObj []) (codepoints ''{}'') = Some (JObj []) \<and>
   first_valid_reply (loads_just (codepoints ''{}'') (JObj []))
     [FENCE @ codepoints ''JSON'' @ [10] @ codepoints ''{}'' @ [10] @ FENCE]
     = Inl (HTTPException 502)"
  by (simp add: parse_reply_def loads_just_def codepoints_def FENCE_def JSON_TAG_def
      match_here_def cleaned_def py_strip_def is_space_def BOM_def closes_def)

section \<open>Properties of the retry loops\<close>

lemma retry_loop_prefix:
  "\<forall>a \<in> set as. body a = Continue (Some (d a)) \<Longrightarrow>
   retry_loop body (as @ rest) tr =
     retry_loop body rest (tr @ concat (map (\<lambda>a. [Request a, Sleep (d a)]) as))"
  by (induction as arbitrary: tr) auto

lemma retry_loop_return:
  "body a = Return v \<Longrightarrow> retry_loop body (a # rest) tr = (Inr v, tr @ [Request a])"
  by simp

lemma upt_values:
  "[0..<RETRY_MAX] = [0, 1, 2, 3]" "[1..<RETRY_MAX + 1] = [1, 2, 3, 4]"
  "[0..<RETRY_MAX - 1] = [0, 1, 2]"
  by code_simp+

lemma upt_small:
  "[0..<(0::nat)] = []" "[0..<(1::nat)] = [0]" "[0..<(2::nat)] = [0, 1]" "[0..<(3::nat)] = [0, 1, 2]"
  "[1..<Suc 0] = []" "[1..<Suc 1] = [1]" "[1..<Suc 2] = [1, 2]" "[1..<Suc 3] = [1, 2, 3]"
  "[Suc 0..<4] = [1, 2, 3]"
  by code_simp+

lemma small_cases: "k < RETRY_MAX \<Longrightarrow> k = 0 \<or> k = 1 \<or> k = 2 \<or> k = 3"
  by (auto simp: RETRY_MAX_def)

lemma thread_attempt_transient:
  "transient a \<Longrightarrow> attempt < RETRY_MAX - 1 \<Longrightarrow>
   thread_attempt attempt a = Continue (Some (retry_delay attempt))"
  by (cases a) (auto simp: transient_def thread_attempt_def except_handler_def TRANSIENT_def)

lemma thread_attempt_last:
  "transient a \<Longrightarrow>
   thread_attempt 3 a = Continue None \<or> thread_attempt 3 a = Raise (HTTPException 502)"
  by (cases a)
     (auto simp: transient_def thread_attempt_def except_handler_def TRANSIENT_def RETRY_MAX_def)

lemma create_thread_success:
  assumes "k < RETRY_MAX" "\<forall>a < k. transient (env a)"
    "env k = Response status (Some thread_id)" "status = 200 \<or> status = 201"
  shows "create_openai_thread env = (Inr thread_id, retries 0 [0..<k] @ [Request k])"
proof -
  have ret: "thread_attempt k (env k) = Return thread_id"
    using assms(3,4) by (auto simp: thread_attempt_def)
  have pre: "thread_attempt a (env a) = Continue (Some (retry_delay a))" if "a < k" for a
  proof -
    from that assms(1) have "a < RETRY_MAX - 1" by simp
    with that assms(2) show ?thesis by (simp add: thread_attempt_transient)
  qed
  from small_cases[OF assms(1)] show ?thesis
  proof (elim disjE)
    assume "k = 0"
    then show ?thesis using ret
      by (simp add: create_openai_thread_def upt_values upt_small retries_def)
  next
    assume k: "k = 1"
    then have "thread_attempt 0 (env 0) = Continue (Some (retry_delay 0))" using pre[of 0] by simp
    then show ?thesis using ret k
      by (simp add: create_openai_thread_def upt_values upt_small retries_def)
  next
    assume k: "k = 2"
    then have "thread_attempt 0 (env 0) = Continue (Some (retry_delay 0))"
      "thread_attempt 1 (env 1) = Continue (Some (retry_delay 1))"
      using pre[of 0] pre[of 1] by simp_all
    then show ?thesis using ret k
      by (simp add: create_openai_thread_def upt_values upt_small retries_def)
  next
    assume k: "k = 3"
    then have "thread_attempt 0 (env 0) = Continue (Some (retry_delay 0))"
      "thread_attempt 1 (env 1) = Continue (Some (retry_delay 1))"
      "thread_attempt 2 (env 2) = Continue (Some (retry_delay 2))"
      using pre[of 0] pre[of 1] pre[of 2] by simp_all
    then show ?thesis using ret k
      by (simp add: create_openai_thread_def upt_values upt_small retries_def)
  qed
qed

lemma create_thread_exhausted:
  assumes "\<forall>a < RETRY_MAX. transient (env a)"
  shows "create_openai_thread env =
          (Inl (HTTPException 502),
           [Request 0, Sleep (5 / 4), Request 1, Sleep (5 / 2), Request 2, Sleep 5, Request 3])"
proof -
  have t: "transient (env 0)" "transient (env 1)" "transient (env 2)" "transient (env 3)"
    using assms by (simp_all add: RETRY_MAX_def)
  have pre: "thread_attempt 0 (env 0) = Continue (Some (retry_delay 0))"
      "thread_attempt 1 (env 1) = Continue (Some (retry_delay 1))"
      "thread_attempt 2 (env 2) = Continue (Some (retry_delay 2))"
    using t by (simp_all add: thread_attempt_transient RETRY_MAX_def)
  have d: "retry_delay 0 = 5 / 4" "retry_delay 1 = 5 / 2" "retry_delay 2 = 5"
    by (simp_all add: retry_delay_def RETRY_BASE_DELAY_def)
  from thread_attempt_last[OF t(4)] show ?thesis
    using pre d by (auto simp: create_openai_thread_def upt_values)
qed

lemma completion_attempt_failed:
  "failed_completion loads c \<Longrightarrow>
   completion_attempt loads attempt c = Continue (Some (retry_delay (attempt - 1)))"
  by (cases c) (auto simp: failed_completion_def completion_attempt_def)

lemma json_response_success:
  assumes "k < RETRY_MAX" "\<forall>a. 1 \<le> a \<and> a \<le> k \<longrightarrow> failed_completion loads (env a)"
    "env (Suc k) = Content text" "parse_reply loads (if text = [] then EMPTY_OUTPUT else text) = Some v"
  shows "openai_json_response loads env = (Inr v, retries 1 [1..<Suc k] @ [Request (Suc k)])"
proof -
  have ret: "completion_attempt loads (Suc k) (env (Suc k)) = Return v"
    using assms(3,4) by (simp add: completion_attempt_def)
  have pre: "completion_attempt loads a (env a) = Continue (Some (retry_delay (a - 1)))"
    if "1 \<le> a" "a \<le> k" for a
    using that assms(2) by (simp add: completion_attempt_failed)
  from small_cases[OF assms(1)] show ?thesis
  proof (elim disjE)
    assume "k = 0"
    then show ?thesis using ret
      unfolding openai_json_response_def upt_values(2)
      by (simp add: upt_small retries_def)
  next
    assume k: "k = 1"
    then have "completion_attempt loads 1 (env 1) = Continue (Some (retry_delay (1 - 1)))"
      using pre[of 1] by simp
    then show ?thesis using ret k
      unfolding openai_json_response_def upt_values(2)
      by (simp add: upt_small retries_def numeral_2_eq_2)
  next
    assume k: "k = 2"
    then have "completion_attempt loads 1 (env 1) = Continue (Some (retry_delay (1 - 1)))"
      "completion_attempt loads 2 (env 2) = Continue (Some (retry_delay (2 - 1)))"
      using pre[of 1] pre[of 2] by simp_all
    then show ?thesis using ret k
      unfolding openai_json_response_def upt_values(2)
      by (simp add: upt_small retries_def numeral_3_eq_3)
  next
    assume k: "k = 3"
    then have "completion_attempt loads 1 (env 1) = Continue (Some (retry_delay (1 - 1)))"
      "completion_attempt loads 2 (env 2) = Continue (Some (retry_delay (2 - 1)))"
      "completion_attempt loads 3 (env 3) = Continue (Some (retry_delay (3 - 1)))"
      using pre[of 1] pre[of 2] pre[of 3] by simp_all
    moreover have "Suc 3 = 4" by simp
    ultimately show ?thesis using ret k
      unfolding openai_json_response_def upt_values(2)
      by (simp add: upt_small retries_def)
  qed
qed

lemma json_response_exhausted:
  assumes "\<forall>a. 1 \<le> a \<and> a \<le> RETRY_MAX \<longrightarrow> failed_completion loads (env a)"
  shows "openai_json_response loads env =
          (Inl (HTTPException 502),
           [Request 1, Sleep (5 / 4), Request 2, Sleep (5 / 2), Request 3, Sleep 5,
            Request 4, Sleep 10])"
proof -
  have f: "failed_completion loads (env 1)" "failed_completion loads (env 2)"
    "failed_completion loads (env 3)" "failed_completion loads (env 4)"
    using assms by (simp_all add: RETRY_MAX_def)
  have d: "retry_delay 0 = 5 / 4" "retry_delay 1 = 5 / 2" "retry_delay 2 = 5" "retry_delay 3 = 10"
    by (simp_all add: retry_delay_def RETRY_BASE_DELAY_def)
  show ?thesis
    using completion_attempt_failed[OF f(1), of 1] completion_attempt_failed[OF f(2), of 2]
      completion_attempt_failed[OF f(3), of 3] completion_attempt_failed[OF f(4), of 4] d
    unfolding openai_json_response_def upt_values(2)
    by simp
qed

text \<open>
  The part of the retry law that holds. In \<^verbatim>\<open>create_openai_thread\<close> a transient outcome
  (status 429, 500, 502, 503 or 504, or an exception of the transport) is retried: after
  \<open>k \<le> 3\<close> transient outcomes a success returns the thread id, with the delays 1.25, 2.5,
  5.0 before the retries, and four transient outcomes in a row raise \<^verbatim>\<open>HTTPException\<close> 502
  after four requests and those three delays. In \<^verbatim>\<open>openai_json_response\<close> every failed
  attempt, of whatever kind, is retried: after \<open>k \<le> 3\<close> failures a success returns the
  reply, and four failures raise 502 after the delays 1.25, 2.5, 5.0 and a further 10.0.
  \<^verbatim>\<open>RETRY_MAX\<close> is 4 and the delay of attempt \<open>a\<close> is \<open>1.25 \<sqdot> 2\<^sup>a\<close>.
\<close>

lemma retry_law:
  "(k < RETRY_MAX \<and> (\<forall>a < k. transient (env a)) \<and>
    env k = Response status (Some thread_id) \<and> (status = 200 \<or> status = 201) \<longrightarrow>
      create_openai_thread env = (Inr thread_id, retries 0 [0..<k] @ [Request k])) \<and>
   ((\<forall>a < RETRY_MAX. transient (env a)) \<longrightarrow>
      create_openai_thread env =
        (Inl (HTTPException 502),
         [Request 0, Sleep (5 / 4), Request 1, Sleep (5 / 2), Request 2, Sleep 5, Request 3])) \<and>
   (k < RETRY_MAX \<and> (\<forall>a. 1 \<le> a \<and> a \<le> k \<longrightarrow> failed_completion loads (cenv a)) \<and>
    cenv (Suc k) = Content text \<and>
    parse_reply loads (if text = [] then EMPTY_OUTPUT else text) = Some v \<longrightarrow>
      openai_json_response loads cenv = (Inr v, retries 1 [1..<Suc k] @ [Request (Suc k)])) \<and>
   ((\<forall>a. 1 \<le> a \<and> a \<le> RETRY_MAX \<longrightarrow> failed_completion loads (cenv a)) \<longrightarrow>
      openai_json_response loads cenv =
        (Inl (HTTPException 502),
         [Request 1, Sleep (5 / 4), Request 2, Sleep (5 / 2), Request 3, Sleep 5,
          Request 4, Sleep 10])) \<and>
   RETRY_MAX = 4 \<and> map retry_delay [0, 1, 2, 3] = [5 / 4, 5 / 2, 5, 10]"
proof -
  have a: "create_openai_thread env = (Inr thread_id, retries 0 [0..<k] @ [Request k])"
    if "k < RETRY_MAX \<and> (\<forall>a < k. transient (env a)) \<and>
        env k = Response status (Some thread_id) \<and> (status = 200 \<or> status = 201)"
    using that create_thread_success[of k env status thread_id] by blast
  have b: "create_openai_thread env =
        (Inl (HTTPException 502),
         [Request 0, Sleep (5 / 4), Request 1, Sleep (5 / 2), Request 2, Sleep 5, Request 3])"
    if "\<forall>a < RETRY_MAX. transient (env a)"
    using that by (rule create_thread_exhausted)
  have c: "openai_json_response loads cenv = (Inr v, retries 1 [1..<Suc k] @ [Request (Suc k)])"
    if "k < RETRY_MAX \<and> (\<forall>a. 1 \<le> a \<and> a \<le> k \<longrightarrow> failed_completion loads (cenv a)) \<and>
        cenv (Suc k) = Content text \<and>
        parse_reply loads (if text = [] then EMPTY_OUTPUT else text) = Some v"
    using that json_response_success[of k loads cenv "text" v] by blast
  have d: "openai_json_response loads cenv =
        (Inl (HTTPException 502),
         [Request 1, Sleep (5 / 4), Request 2, Sleep (5 / 2), Request 3, Sleep 5,
          Request 4, Sleep 10])"
    if "\<forall>a. 1 \<le> a \<and> a \<le> RETRY_MAX \<longrightarrow> failed_completion loads (cenv a)"
    using that by (rule json_response_exhausted)
  have e: "RETRY_MAX = 4 \<and> map retry_delay [0, 1, 2, 3] = [5 / 4, 5 / 2, 5, 10]"
    by (simp add: RETRY_MAX_def retry_delay_def RETRY_BASE_DELAY_def)
  show ?thesis using a b c d e by blast
qed

text \<open>Two rate-limit responses before the thread is created; a completions service that is
  overloaded four times.\<close>

lemma retry_law_example:
  "create_openai_thread rate_limited_twice =
     (Inr ''thread_1'', [Request 0, Sleep (5 / 4), Request 1, Sleep (5 / 2), Request 2]) \<and>
   openai_json_response (loads_just [123, 125] (JObj [])) always_overloaded =
     (Inl (HTTPException 502),
      [Request 1, Sleep (5 / 4), Request 2, Sleep (5 / 2), Request 3, Sleep 5,
       Request 4, Sleep 10])"
proof -
  have k: "(2::nat) < RETRY_MAX" by (simp add: RETRY_MAX_def)
  have t: "\<forall>a < 2. transient (rate_limited_twice a)"
    by (simp add: rate_limited_twice_def transient_def TRANSIENT_def)
  have ok: "rate_limited_twice 2 = Response 200 (Some ''thread_1'')"
    by (simp add: rate_limited_twice_def)
  have f: "\<forall>a. 1 \<le> a \<and> a \<le> RETRY_MAX \<longrightarrow>
      failed_completion (loads_just [123, 125] (JObj [])) (always_overloaded a)"
    by (simp add: always_overloaded_def failed_completion_def)
  have r: "retries 0 [0..<2] @ [Request 2] =
      [Request 0, Sleep (5 / 4), Request 1, Sleep (5 / 2), Request 2]"
    by (simp add: retries_def upt_small retry_delay_def RETRY_BASE_DELAY_def)
  show ?thesis
    using retry_law[where k = 2 and env = rate_limited_twice and status = 200
        and thread_id = "''thread_1''" and loads = "loads_just [123, 125] (JObj [])"
        and cenv = always_overloaded] k t ok f r
    by simp
qed

text \<open>\<^verbatim>\<open>openai_json_response\<close> has one handler for the whole attempt: it retries after
  an authorisation error (status 401) and returns the second attempt's reply, and after a
  fourth failure it sleeps another 10 seconds before it raises.\<close>

lemma json_response_retries_every_failure:
  "openai_json_response (loads_just [123, 125] (JObj [])) unauthorized_once =
     (Inr (JObj []), [Request 1, Sleep (5 / 4), Request 2]) \<and>
   openai_json_response (loads_just [123, 125] (JObj [])) always_overloaded =
     (Inl (HTTPException 502),
      [Request 1, Sleep (5 / 4), Request 2, Sleep (5 / 2), Request 3, Sleep 5,
       Request 4, Sleep 10])"
  unfolding openai_json_response_def upt_values(2)
  by (simp add: unauthorized_once_def always_overloaded_def completion_attempt_def
      parse_reply_def loads_just_def retry_delay_def RETRY_BASE_DELAY_def)

text \<open>
  Claim C4 at a status that is not transient. The claim has such a signal fail at once,
  without a retry. In \<^verbatim>\<open>create_openai_thread\<close> the \<^verbatim>\<open>HTTPException\<close> raised for status
  400 is raised inside the \<^verbatim>\<open>try\<close> and caught by the loop's own handler, which sleeps
  and sends the request again: when the second request succeeds the thread id is returned,
  and a service that always answers 400 is asked four times, over 8.75 seconds, before the
  502 is raised.
\<close>

theorem non_transient_status_retried:
  "create_openai_thread bad_request_once =
     (Inr ''thread_1'', [Request 0, Sleep (5 / 4), Request 1]) \<and>
   create_openai_thread always_bad_request =
     (Inl (HTTPException 502),
      [Request 0, Sleep (5 / 4), Request 1, Sleep (5 / 2), Request 2, Sleep 5, Request 3]) \<and>
   transient (bad_request_once 0) = False \<and> transient (always_bad_request 0) = False"
proof -
  have a: "create_openai_thread bad_request_once =
     (Inr ''thread_1'', [Request 0, Sleep (5 / 4), Request 1])"
    unfolding create_openai_thread_def upt_values(1)
    by (simp add: bad_request_once_def thread_attempt_def except_handler_def TRANSIENT_def
        RETRY_MAX_def retry_delay_def RETRY_BASE_DELAY_def)
  have b: "create_openai_thread always_bad_request =
     (Inl (HTTPException 502),
      [Request 0, Sleep (5 / 4), Request 1, Sleep (5 / 2), Request 2, Sleep 5, Request 3])"
    unfolding create_openai_thread_def upt_values(1)
    by (simp add: always_bad_request_def thread_attempt_def except_handler_def TRANSIENT_def
        RETRY_MAX_def retry_delay_def RETRY_BASE_DELAY_def)
  have c: "transient (bad_request_once 0) = False \<and> transient (always_bad_request 0) = False"
    by (simp add: transient_def bad_request_once_def always_bad_request_def TRANSIENT_def)
  show ?thesis using a b c by simp
qed

section \<open>Properties of the polling loop\<close>

lemma round_half_even_eq:
  assumes "(of_int n - 1 / 2 < x \<and> x < of_int n + 1 / 2) \<or>
           (even n \<and> (x = of_int n - 1 / 2 \<or> x = of_int n + 1 / 2))"
  shows "round_half_even x = n"
proof -
  consider "of_int n \<le> x" "x < of_int n + 1 / 2"
    | "of_int n - 1 / 2 < x" "x < of_int n"
    | "even n" "x = of_int n - 1 / 2"
    | "even n" "x = of_int n + 1 / 2"
    using assms by linarith
  then show ?thesis
  proof cases
    case 1
    then have "\<lfloor>x\<rfloor> = n" by (intro floor_unique) auto
    then show ?thesis using 1 by (simp add: round_half_even_def)
  next
    case 2
    then have "\<lfloor>x\<rfloor> = n - 1" by (intro floor_unique) auto
    then show ?thesis using 2 by (simp add: round_half_even_def)
  next
    case 3
    then have "\<lfloor>x\<rfloor> = n - 1" by (intro floor_unique) auto
    then show ?thesis using 3 by (simp add: round_half_even_def)
  next
    case 4
    then have "\<lfloor>x\<rfloor> = n" by (intro floor_unique) auto
    then show ?thesis using 4 by (simp add: round_half_even_def)
  qed
qed

lemma nearest_double_eq:
  assumes "ulp q = u"
    and "(of_int n - 1 / 2 < q / u \<and> q / u < of_int n + 1 / 2) \<or>
         (even n \<and> (q / u = of_int n - 1 / 2 \<or> q / u = of_int n + 1 / 2))"
  shows "nearest_double q = of_int n * u"
  using round_half_even_eq[OF assms(2)] assms(1) by (simp add: nearest_double_def)

lemma round_half_even_ge: "of_int n \<le> x \<Longrightarrow> n \<le> round_half_even x"
proof -
  assume "of_int n \<le> x"
  then have "n \<le> \<lfloor>x\<rfloor>" by (simp add: le_floor_iff)
  then show ?thesis by (simp add: round_half_even_def)
qed

lemma nearest_double_tenth:
  "nearest_double (1 / 10) = 3602879701896397 / 36028797018963968"
  using nearest_double_eq[of "1 / 10" "1 / 2 ^ 56" 7205759403792794]
  by (simp add: ulp_def)

lemma nearest_double_ge:
  assumes "1 / 8 \<le> q"
  shows "1 / 8 \<le> nearest_double q"
proof -
  have "\<exists>m::int. (1::rat) / 8 = of_int m * ulp q \<and> 0 < ulp q"
  proof -
    have "ulp q = 1 / 2 ^ 55 \<or> ulp q = 1 / 2 ^ 54 \<or> ulp q = 1 / 2 ^ 53 \<or>
          ulp q = 1 / 2 ^ 52 \<or> ulp q = 1 / 2 ^ 51"
      using assms by (simp add: ulp_def)
    then show ?thesis
    proof (elim disjE)
      assume "ulp q = 1 / 2 ^ 55"
      then show ?thesis by (intro exI[of _ "2 ^ 52"]) simp
    next
      assume "ulp q = 1 / 2 ^ 54"
      then show ?thesis by (intro exI[of _ "2 ^ 51"]) simp
    next
      assume "ulp q = 1 / 2 ^ 53"
      then show ?thesis by (intro exI[of _ "2 ^ 50"]) simp
    next
      assume "ulp q = 1 / 2 ^ 52"
      then show ?thesis by (intro exI[of _ "2 ^ 49"]) simp
    next
      assume "ulp q = 1 / 2 ^ 51"
      then show ?thesis by (intro exI[of _ "2 ^ 48"]) simp
    qed
  qed
  then obtain m :: int where m: "(1::rat) / 8 = of_int m * ulp q" and u: "0 < ulp q" by blast
  have "of_int m \<le> q / ulp q" using assms m u by (simp add: pos_le_divide_eq)
  then have "m \<le> round_half_even (q / ulp q)" by (rule round_half_even_ge)
  then have "(of_int m :: rat) \<le> of_int (round_half_even (q / ulp q))" by simp
  then have "of_int m * ulp q \<le> of_int (round_half_even (q / ulp q)) * ulp q"
    using u by (simp add: mult_right_mono)
  then show ?thesis using m by (simp add: nearest_double_def)
qed

lemma poll_delay_bounds: "1 / 10 \<le> poll_delay r \<and> poll_delay r \<le> 2"
proof (induction r)
  case 0
  then show ?case by (simp add: nearest_double_tenth)
next
  case (Suc r)
  then have "1 / 8 \<le> poll_delay r * (3 / 2)" by simp
  then have "1 / 8 \<le> nearest_double (poll_delay r * (3 / 2))" by (rule nearest_double_ge)
  then show ?case by simp
qed

lemma upt_RETRY_MAX: "[0..<RETRY_MAX] = [0, 1, 2, 3]"
  by code_simp

lemma round_pending:
  "env rnd 0 = PollResponse 200 status \<Longrightarrow> non_terminal status \<Longrightarrow>
   retry_loop (\<lambda>attempt. status_attempt attempt (env rnd attempt)) [0..<RETRY_MAX] tr
     = (Inr Pending, tr @ [Request 0])"
  unfolding upt_RETRY_MAX by (simp add: status_attempt_def non_terminal_def)

lemma round_completed:
  "env rnd 0 = PollResponse 200 ''completed'' \<Longrightarrow>
   retry_loop (\<lambda>attempt. status_attempt attempt (env rnd attempt)) [0..<RETRY_MAX] tr
     = (Inr Completed, tr @ [Request 0])"
  unfolding upt_RETRY_MAX by (simp add: status_attempt_def)

lemma pending_rounds_Suc:
  "pending_rounds r (Suc n) = [Request 0, Sleep (poll_delay r)] @ pending_rounds (Suc r) n"
  by (simp add: pending_rounds_def upt_conv_Cons del: upt_Suc)

lemma poll_loop_backoff:
  "\<forall>i < n. \<exists>status. env (r + i) 0 = PollResponse 200 status \<and> non_terminal status \<Longrightarrow>
   env (r + n) 0 = PollResponse 200 ''completed'' \<Longrightarrow> n < fuel \<Longrightarrow>
   poll_loop fuel env r (poll_delay r) tr = Some (Inr (), tr @ pending_rounds r n @ [Request 0])"
proof (induction n arbitrary: fuel r tr)
  case 0
  then obtain f where f: "fuel = Suc f" by (cases fuel) auto
  from 0 have "env r 0 = PollResponse 200 ''completed''" by simp
  from round_completed[where env = env and rnd = r, OF this] show ?case
    by (simp add: f pending_rounds_def)
next
  case (Suc n)
  then obtain f where f: "fuel = Suc f" by (cases fuel) auto
  from Suc.prems(1) obtain status where
    st: "env r 0 = PollResponse 200 status" "non_terminal status" by force
  have rest: "\<forall>i < n. \<exists>status. env (Suc r + i) 0 = PollResponse 200 status \<and> non_terminal status"
    using Suc.prems(1) by (metis Suc_less_eq add_Suc_shift)
  have fin: "env (Suc r + n) 0 = PollResponse 200 ''completed''"
    using Suc.prems(2) by simp
  have fl: "n < f" using Suc.prems(3) f by simp
  from Suc.IH[OF rest fin fl, of "tr @ [Request 0, Sleep (poll_delay r)]"]
  show ?case
    using round_pending[where env = env and rnd = r, OF st]
    by (simp add: f pending_rounds_Suc)
qed

lemma poll_loop_unbounded:
  "\<forall>rnd. \<exists>status. env rnd 0 = PollResponse 200 status \<and> non_terminal status \<Longrightarrow>
   poll_loop fuel env r delay tr = None"
proof (induction fuel arbitrary: r delay tr)
  case 0
  then show ?case by simp
next
  case (Suc fuel)
  from Suc.prems obtain status where
    st: "env r 0 = PollResponse 200 status" "non_terminal status" by blast
  show ?case
    using round_pending[where env = env and rnd = r, OF st] Suc.IH[OF Suc.prems] by simp
qed

text \<open>Backoff: while the run's status is neither completed nor failed, cancelled or
  expired, the loop polls again after a delay that starts at the double 0.1, grows by the
  factor 1.5 in double arithmetic and is capped at 2.0; a completed status ends the
  polling; a run that stays pending is polled for as long as the fuel lasts, whatever the
  fuel.\<close>

lemma poll_backoff_law:
  "((\<forall>i < n. \<exists>status. env i 0 = PollResponse 200 status \<and> non_terminal status) \<and>
    env n 0 = PollResponse 200 ''completed'' \<and> n < fuel \<longrightarrow>
      poll_until_done fuel env = Some (Inr (), pending_rounds 0 n @ [Request 0])) \<and>
   ((\<forall>rnd. \<exists>status. env rnd 0 = PollResponse 200 status \<and> non_terminal status) \<longrightarrow>
      poll_until_done fuel env = None) \<and>
   poll_delay 0 = nearest_double (1 / 10) \<and>
   poll_delay (Suc r) = min (nearest_double (poll_delay r * (3 / 2))) 2 \<and>
   1 / 10 \<le> poll_delay r \<and> poll_delay r \<le> 2"
proof -
  have a: "poll_until_done fuel env = Some (Inr (), pending_rounds 0 n @ [Request 0])"
    if "(\<forall>i < n. \<exists>status. env i 0 = PollResponse 200 status \<and> non_terminal status) \<and>
        env n 0 = PollResponse 200 ''completed'' \<and> n < fuel"
    using that poll_loop_backoff[of n env 0 fuel "[]"]
    by (simp add: poll_until_done_def)
  have b: "poll_until_done fuel env = None"
    if "\<forall>rnd. \<exists>status. env rnd 0 = PollResponse 200 status \<and> non_terminal status"
    using that poll_loop_unbounded[of env fuel 0 "nearest_double (1 / 10)" "[]"]
    by (simp add: poll_until_done_def)
  show ?thesis
    using a b poll_delay_bounds[of r] by simp
qed

text \<open>The first delays are the doubles that Python prints as 0.1, 0.15000000000000002
  and 0.22500000000000003; the eighth is the cap.\<close>

lemma poll_delay_values:
  "poll_delay 0 = 3602879701896397 / 36028797018963968 \<and>
   poll_delay 1 = 1351079888211149 / 9007199254740992 \<and>
   poll_delay 2 = 4053239664633447 / 18014398509481984 \<and>
   poll_delay 3 = 3039929748475085 / 9007199254740992 \<and>
   poll_delay 4 = 1139973655678157 / 2251799813685248 \<and>
   poll_delay 5 = 3419920967034471 / 4503599627370496 \<and>
   poll_delay 6 = 2564940725275853 / 2251799813685248 \<and>
   poll_delay 7 = 7694822175827559 / 4503599627370496 \<and>
   poll_delay 8 = 2"
proof -
  have d0: "poll_delay 0 = 3602879701896397 / 36028797018963968"
    by (simp add: nearest_double_tenth)
  have d1: "poll_delay (Suc 0) = 1351079888211149 / 9007199254740992"
    unfolding poll_delay.simps(2) d0
    using nearest_double_eq[of "3602879701896397 / 36028797018963968 * (3 / 2)"
        "1 / 2 ^ 55" 5404319552844596]
    by (simp add: ulp_def)
  have d2: "poll_delay (Suc (Suc 0)) = 4053239664633447 / 18014398509481984"
    unfolding poll_delay.simps(2)[of "Suc 0"] d1
    using nearest_double_eq[of "1351079888211149 / 9007199254740992 * (3 / 2)"
        "1 / 2 ^ 55" 8106479329266894]
    by (simp add: ulp_def)
  have d3: "poll_delay (Suc (Suc (Suc 0))) = 3039929748475085 / 9007199254740992"
    unfolding poll_delay.simps(2)[of "Suc (Suc 0)"] d2
    using nearest_double_eq[of "4053239664633447 / 18014398509481984 * (3 / 2)"
        "1 / 2 ^ 54" 6079859496950170]
    by (simp add: ulp_def)
  have d4: "poll_delay (Suc (Suc (Suc (Suc 0)))) = 1139973655678157 / 2251799813685248"
    unfolding poll_delay.simps(2)[of "Suc (Suc (Suc 0))"] d3
    using nearest_double_eq[of "3039929748475085 / 9007199254740992 * (3 / 2)"
        "1 / 2 ^ 53" 4559894622712628]
    by (simp add: ulp_def)
  have d5: "poll_delay (Suc (Suc (Suc (Suc (Suc 0))))) = 3419920967034471 / 4503599627370496"
    unfolding poll_delay.simps(2)[of "Suc (Suc (Suc (Suc 0)))"] d4
    using nearest_double_eq[of "1139973655678157 / 2251799813685248 * (3 / 2)"
        "1 / 2 ^ 53" 6839841934068942]
    by (simp add: ulp_def)
  have d6: "poll_delay (Suc (Suc (Suc (Suc (Suc (Suc 0)))))) = 2564940725275853 / 2251799813685248"
    unfolding poll_delay.simps(2)[of "Suc (Suc (Suc (Suc (Suc 0))))"] d5
    using nearest_double_eq[of "3419920967034471 / 4503599627370496 * (3 / 2)"
        "1 / 2 ^ 52" 5129881450551706]
    by (simp add: ulp_def)
  have d7: "poll_delay (Suc (Suc (Suc (Suc (Suc (Suc (Suc 0))))))) =
      7694822175827559 / 4503599627370496"
    unfolding poll_delay.simps(2)[of "Suc (Suc (Suc (Suc (Suc (Suc 0)))))"] d6
    using nearest_double_eq[of "2564940725275853 / 2251799813685248 * (3 / 2)"
        "1 / 2 ^ 52" 7694822175827559]
    by (simp add: ulp_def)
  have d8: "poll_delay (Suc (Suc (Suc (Suc (Suc (Suc (Suc (Suc 0)))))))) = 2"
    unfolding poll_delay.simps(2)[of "Suc (Suc (Suc (Suc (Suc (Suc (Suc 0))))))"] d7
    using nearest_double_eq[of "7694822175827559 / 4503599627370496 * (3 / 2)"
        "1 / 2 ^ 51" 5771116631870669]
    by (simp add: ulp_def)
  have n: "(1::nat) = Suc 0" "(2::nat) = Suc (Suc 0)" "(3::nat) = Suc (Suc (Suc 0))"
    "(4::nat) = Suc (Suc (Suc (Suc 0)))" "(5::nat) = Suc (Suc (Suc (Suc (Suc 0))))"
    "(6::nat) = Suc (Suc (Suc (Suc (Suc (Suc 0)))))"
    "(7::nat) = Suc (Suc (Suc (Suc (Suc (Suc (Suc 0))))))"
    "(8::nat) = Suc (Suc (Suc (Suc (Suc (Suc (Suc (Suc 0)))))))"
    by simp_all
  show ?thesis
    unfolding n using d0 d1 d2 d3 d4 d5 d6 d7 d8 by blast
qed

lemma poll_backoff_example:
  "poll_until_done 4 (\<lambda>rnd attempt. PollResponse 200 (if rnd < 3 then ''queued'' else ''completed''))
     = Some (Inr (), [Request 0, Sleep (3602879701896397 / 36028797018963968),
                      Request 0, Sleep (1351079888211149 / 9007199254740992),
                      Request 0, Sleep (4053239664633447 / 18014398509481984),
                      Request 0]) \<and>
   poll_until_done 50 always_queued = None"
proof -
  have q: "\<forall>rnd. \<exists>status. always_queued rnd 0 = PollResponse 200 status \<and> non_terminal status"
    by (simp add: always_queued_def non_terminal_def)
  have n: "poll_until_done 50 always_queued = None"
    using poll_backoff_law[of _ always_queued 50] q by blast
  have p: "\<forall>i < 3. \<exists>status.
      (\<lambda>rnd attempt. PollResponse 200 (if rnd < (3::nat) then ''queued'' else ''completed'')) i (0::nat)
        = PollResponse 200 status \<and> non_terminal status"
    by (simp add: non_terminal_def)
  have r: "pending_rounds 0 3 =
      [Request 0, Sleep (poll_delay 0), Request 0, Sleep (poll_delay 1),
       Request 0, Sleep (poll_delay 2)]"
    by (simp add: pending_rounds_def upt_rec numeral_3_eq_3 numeral_2_eq_2)
  have e: "poll_until_done 4 (\<lambda>rnd attempt. PollResponse 200 (if rnd < 3 then ''queued'' else ''completed''))
     = Some (Inr (), pending_rounds 0 3 @ [Request 0])"
    using poll_backoff_law[of 3 "\<lambda>rnd attempt. PollResponse 200 (if rnd < 3 then ''queued'' else ''completed'')" 4] p
    by simp
  show ?thesis
    unfolding e r using n poll_delay_values by simp
qed

text \<open>
  Claim C6 at a failed run. The status \<^verbatim>\<open>failed\<close> does not end the polling: the
  exception raised for it is caught by the handler of the status request, which sleeps
  and polls again. For a run that stays failed the function raises only after four polls
  and 8.75 seconds; when a later poll reports \<^verbatim>\<open>completed\<close>, the function goes on to
  fetch and return the reply.
\<close>

theorem poll_failed_status_retried:
  "poll_until_done 1 always_failed =
     Some (Inl (HTTPException 502),
           [Request 0, Sleep (5 / 4), Request 1, Sleep (5 / 2), Request 2, Sleep 5, Request 3]) \<and>
   poll_until_done 1 failed_then_completed =
     Some (Inr (), [Request 0, Sleep (5 / 4), Request 1]) \<and>
   run_thread_with_assistant 1
     \<lparr>create_run_outcome = Inr ''run_1'', polls = failed_then_completed,
      reply_outcome = Inr (JObj [])\<rparr> = Some (Inr (JObj []))"
proof -
  have f: "(1::nat) = Suc 0" by simp
  have a: "poll_until_done 1 always_failed =
     Some (Inl (HTTPException 502),
           [Request 0, Sleep (5 / 4), Request 1, Sleep (5 / 2), Request 2, Sleep 5, Request 3])"
    unfolding poll_until_done_def f poll_loop.simps upt_RETRY_MAX
    by (simp add: status_attempt_def always_failed_def except_handler_def RETRY_MAX_def
        retry_delay_def RETRY_BASE_DELAY_def)
  have b: "poll_until_done 1 failed_then_completed =
     Some (Inr (), [Request 0, Sleep (5 / 4), Request 1])"
    unfolding poll_until_done_def f poll_loop.simps upt_RETRY_MAX
    by (simp add: status_attempt_def failed_then_completed_def except_handler_def RETRY_MAX_def
        retry_delay_def RETRY_BASE_DELAY_def)
  show ?thesis using a b by (simp add: run_thread_with_assistant_def)
qed

section \<open>The streams of the two streaming endpoints\<close>

subsection \<open>The group loop of the generator and that of \<^verbatim>\<open>ocr_endpoint\<close>\<close>

lemma stream_groups_events:
  "\<forall>ev \<in> set evs. \<not> terminal ev \<Longrightarrow> \<forall>ev \<in> set (fst (stream_groups E g acc evs)). \<not> terminal ev"
proof (induction g arbitrary: E acc evs)
  case Nil
  then show ?case by simp
next
  case (Cons ts g)
  obtain t spans where ts: "ts = (t, spans)" by (cases ts)
  show ?case
  proof (cases "spans \<noteq> [] \<and> hd spans \<noteq> []")
    case True
    show ?thesis
    proof (cases "combine_group E (pages_flat spans)")
      case (Inl e)
      then show ?thesis using True Cons.prems by (simp add: ts)
    next
      case (Inr r)
      obtain E' c where r: "r = (E', c)" by (cases r)
      have "\<forall>ev \<in> set (evs @ [Progress_combine t (pages_flat spans)]). \<not> terminal ev"
        using Cons.prems by simp
      from Cons.IH[OF this] show ?thesis using True Inr r by (simp add: ts)
    qed
  next
    case False
    then show ?thesis using Cons.IH[OF Cons.prems] by (auto simp: ts)
  qed
qed

lemma stream_groups_result:
  "snd (stream_groups E g acc evs) =
     (case group_loop E g of Inl e \<Rightarrow> Inl e | Inr (E', gs) \<Rightarrow> Inr (E', acc @ gs))"
proof (induction g arbitrary: E acc evs)
  case Nil
  then show ?case by simp
next
  case (Cons ts g)
  obtain t spans where ts: "ts = (t, spans)" by (cases ts)
  show ?case
  proof (cases "spans \<noteq> [] \<and> hd spans \<noteq> []")
    case True
    show ?thesis
    proof (cases "combine_group E (pages_flat spans)")
      case (Inl e)
      then show ?thesis using True by (simp add: ts bind_err_def)
    next
      case (Inr r)
      obtain E' c where r: "r = (E', c)" by (cases r)
      show ?thesis using True Inr r Cons.IH[of E' "acc @ [(t, spans, c)]"]
        by (auto simp: ts bind_err_def split: sum.splits)
    qed
  next
    case False
    then show ?thesis using Cons.IH[of E acc evs] by (auto simp: ts)
  qed
qed

lemma stream_pages_events: "\<forall>ev \<in> set (stream_pages b envs). \<not> terminal ev"
  by (auto simp: stream_pages_def split: prod.splits)

lemma sequential_rendered:
  "\<exists>pre. ocr_stream_sequential b (Rendered envs) = pre @ [closing_event b (Rendered envs), Done] \<and>
         (\<forall>ev \<in> set pre. \<not> terminal ev)"
proof -
  let ?E = "extraction_data_per_page b envs"
  let ?g = "chunk_consecutive_by_type (page_results b envs)"
  let ?head = "[Status Started, Status Rendering, Progress_render (length envs), Status Processing] @
          stream_pages b envs @
          [Progress_classify_complete, Status (Found_groups (length ?g)), Status Combining]"
  obtain evs res where sg: "stream_groups ?E ?g [] [] = (evs, res)"
    by (cases "stream_groups ?E ?g [] []")
  have evs: "\<forall>ev \<in> set evs. \<not> terminal ev"
    using stream_groups_events[of "[]" ?E ?g "[]"] sg by simp
  have res: "res = (case group_loop ?E ?g of Inl e \<Rightarrow> Inl e | Inr (E', gs) \<Rightarrow> Inr (E', gs))"
    using stream_groups_result[of ?E ?g "[]" "[]"] sg by (simp split: sum.splits)
  have head: "\<forall>ev \<in> set (?head @ evs). \<not> terminal ev"
    using evs stream_pages_events[of b envs] by auto
  have "ocr_stream_sequential b (Rendered envs) = (?head @ evs) @ [closing_event b (Rendered envs), Done]"
  proof (cases "group_loop ?E ?g")
    case (Inl e)
    then show ?thesis using sg res
      by (simp add: ocr_stream_sequential_def final_response_def grouped_results_def bind_err_def)
  next
    case (Inr r)
    obtain E' gs where r: "r = (E', gs)" by (cases r)
    show ?thesis using sg res Inr r
      by (simp add: ocr_stream_sequential_def final_response_def grouped_results_def bind_err_def)
  qed
  with head show ?thesis by blast
qed

lemma sequential_ending:
  assumes "\<not> invalid_pdf d"
  shows "\<exists>pre. ocr_stream_sequential b d = pre @ [closing_event b d, Done] \<and>
               (\<forall>ev \<in> set pre. \<not> terminal ev)"
proof (cases d)
  case (Read_fails e)
  have "ocr_stream_sequential b d = [Status Started] @ [closing_event b d, Done]"
    by (simp add: Read_fails ocr_stream_sequential_def)
  moreover have "\<forall>ev \<in> set [Status Started]. \<not> terminal ev" by simp
  ultimately show ?thesis by blast
next
  case (Open_fails e)
  then show ?thesis using assms by simp
next
  case (Render_fails e)
  have "ocr_stream_sequential b d = [Status Started, Status Rendering] @ [closing_event b d, Done]"
    by (simp add: Render_fails ocr_stream_sequential_def)
  moreover have "\<forall>ev \<in> set [Status Started, Status Rendering]. \<not> terminal ev" by simp
  ultimately show ?thesis by blast
next
  case (Rendered envs)
  then show ?thesis using sequential_rendered[of b envs] by simp
qed

subsection \<open>The count of the concurrent endpoint\<close>

lemma record_item_length: "length (foldl record_item slots items) = length slots"
proof (induction items arbitrary: slots)
  case Nil
  then show ?case by simp
next
  case (Cons it items)
  then show ?case by (cases it) simp_all
qed

lemma record_item_filled:
  "j < length slots \<Longrightarrow>
   (foldl record_item slots (map (\<lambda>i. process_single_page b (envs ! i) i) arrival) ! j \<noteq> None) =
   (slots ! j \<noteq> None \<or> j \<in> set arrival)"
proof (induction arrival arbitrary: slots)
  case Nil
  then show ?case by simp
next
  case (Cons i arrival)
  obtain pr data where p: "process_page_with_thread b (envs ! i) (int i) = (pr, data)"
    by (cases "process_page_with_thread b (envs ! i) (int i)")
  have upd: "(slots[i := Some pr] ! j \<noteq> None) = (slots ! j \<noteq> None \<or> j = i)"
    using Cons.prems by (cases "i = j") simp_all
  have "j < length (slots[i := Some pr])" using Cons.prems by simp
  from Cons.IH[OF this] upd show ?case
    by (simp add: process_single_page_def p)
qed

lemma successful_pages_all:
  assumes "mset arrival = mset [0..<n]"
  shows "successful_pages
           (foldl record_item (replicate n None)
              (map (\<lambda>i. process_single_page b (envs ! i) i) arrival)) = n"
proof -
  let ?slots = "foldl record_item (replicate n None)
              (map (\<lambda>i. process_single_page b (envs ! i) i) arrival)"
  have len: "length ?slots = n" by (simp add: record_item_length)
  have s: "set arrival = {0..<n}" using mset_eq_setD[OF assms] by simp
  have "\<forall>j < n. ?slots ! j \<noteq> None"
    using record_item_filled[of _ "replicate n None" b envs arrival] s by simp
  then have "\<forall>r \<in> set ?slots. r \<noteq> None" using len by (auto simp: in_set_conv_nth)
  then have "filter (\<lambda>r. r \<noteq> None) ?slots = ?slots" by (simp add: filter_id_conv)
  then show ?thesis using len by (simp add: successful_pages_def)
qed

lemma emit_events:
  "\<forall>ev \<in> set (map (\<lambda>i. emit (process_single_page b (envs ! i) i)) xs). \<not> terminal ev"
  by (auto simp: process_single_page_def split: prod.splits)

lemma concurrent_ending:
  assumes "mset arrival = mset [0..<length envs]"
  shows "\<exists>pre. ocr_stream_concurrent b envs arrival fault =
                 pre @ [concurrent_closing_event (length envs) fault] \<and>
               (\<forall>ev \<in> set pre. \<not> terminal ev)"
proof (cases fault)
  case None
  let ?pre = "Start (length envs) # map (\<lambda>i. emit (process_single_page b (envs ! i) i)) arrival"
  have "ocr_stream_concurrent b envs arrival fault =
          ?pre @ [concurrent_closing_event (length envs) fault]"
    using successful_pages_all[OF assms, of b envs]
    by (simp add: None ocr_stream_concurrent_def concurrent_closing_event_def)
  moreover have "\<forall>ev \<in> set ?pre. \<not> terminal ev" using emit_events[of b envs arrival] by simp
  ultimately show ?thesis by blast
next
  case (Some ke)
  obtain k e where ke: "ke = (k, e)" by (cases ke)
  let ?pre = "Start (length envs) #
                map (\<lambda>i. emit (process_single_page b (envs ! i) i)) (take k arrival)"
  have "ocr_stream_concurrent b envs arrival fault =
          ?pre @ [concurrent_closing_event (length envs) fault]"
    by (simp add: Some ke ocr_stream_concurrent_def concurrent_closing_event_def)
  moreover have "\<forall>ev \<in> set ?pre. \<not> terminal ev"
    using emit_events[of b envs "take k arrival"] by simp
  ultimately show ?thesis by blast
qed

text \<open>
  Claim C8, as the code has it. The stream of the sequential endpoint
  \<^verbatim>\<open>/ocr/stream\<close>, for an upload that is not refused as an invalid PDF, ends with the
  \<^verbatim>\<open>complete\<close> event that carries the response of \<^verbatim>\<open>ocr_endpoint\<close> (page results, grouped
  and merged documents), or with the \<^verbatim>\<open>error\<close> event of the handler of the whole body, and
  in both cases the sentinel \<^verbatim>\<open>[DONE]\<close> follows at once, with no other complete, error or
  sentinel event before. The stream of the concurrent endpoint \<^verbatim>\<open>/ocr-stream\<close>, when each
  task reports once, ends with a \<^verbatim>\<open>complete\<close> event that carries two counts, both the
  number of pages, or with the \<^verbatim>\<open>error\<close> event of its handler, and holds no sentinel.
\<close>

theorem stream_endings:
  assumes "\<not> invalid_pdf d" and "mset arrival = mset [0..<length envs]"
  shows "(\<exists>pre. ocr_stream_sequential b d = pre @ [closing_event b d, Done] \<and>
                (\<forall>ev \<in> set pre. \<not> terminal ev)) \<and>
         (\<exists>pre. ocr_stream_concurrent b envs arrival fault =
                  pre @ [concurrent_closing_event (length envs) fault] \<and>
                (\<forall>ev \<in> set pre. \<not> terminal ev)) \<and>
         Done \<notin> set (ocr_stream_concurrent b envs arrival fault)"
proof -
  from concurrent_ending[OF assms(2), of b fault] obtain pre where
    c: "ocr_stream_concurrent b envs arrival fault =
          pre @ [concurrent_closing_event (length envs) fault]"
    and p: "\<forall>ev \<in> set pre. \<not> terminal ev" by blast
  have "Done \<notin> set pre" using p by auto
  moreover have "concurrent_closing_event (length envs) fault \<noteq> Done"
    by (simp add: concurrent_closing_event_def split: option.splits prod.splits)
  ultimately have "Done \<notin> set (ocr_stream_concurrent b envs arrival fault)"
    unfolding c by simp
  with sequential_ending[OF assms(1), of b] c p show ?thesis by blast
qed

subsection \<open>A two-page invoice\<close>

lemma two_pages_first:
  "process_page_with_thread no_str_numbers (two_pages ! 0) 0 =
     (\<lparr>page_index = 0, doc_type = ''TaxInvoice'', confidence = Finite 0,
        brief_summary = None, key_hints = None\<rparr>,
      JObj [(''items'', JList [JInt 1]), (''pages_used'', JList [JInt 0])])"
  by (simp add: two_pages_def process_page_with_thread_def
        process_page_try_def example_env_def bind_err_def dict_get_def stamp_pages_used_def
        force_known_type_def TYPE_ORDER_def read_confidence_def
        clamp_confidence_def py_min_def py_max_def)

lemma two_pages_second:
  "process_page_with_thread no_str_numbers (two_pages ! Suc 0) 1 =
     (\<lparr>page_index = 1, doc_type = ''TaxInvoice'', confidence = Finite 0,
        brief_summary = None, key_hints = None\<rparr>,
      JObj [(''items'', JList [JInt 2]), (''pages_used'', JList [JInt 1])])"
  by (simp add: two_pages_def process_page_with_thread_def
        process_page_try_def example_env_def bind_err_def dict_get_def stamp_pages_used_def
        force_known_type_def TYPE_ORDER_def read_confidence_def
        clamp_confidence_def py_min_def py_max_def)

lemma two_pages_gather:
  "gather_pages no_str_numbers two_pages =
     [(\<lparr>page_index = 0, doc_type = ''TaxInvoice'', confidence = Finite 0,
         brief_summary = None, key_hints = None\<rparr>,
       JObj [(''items'', JList [JInt 1]), (''pages_used'', JList [JInt 0])]),
      (\<lparr>page_index = 1, doc_type = ''TaxInvoice'', confidence = Finite 0,
         brief_summary = None, key_hints = None\<rparr>,
       JObj [(''items'', JList [JInt 2]), (''pages_used'', JList [JInt 1])])]"
proof -
  have up: "[0..<2] = [0, 1]" by (simp add: upt_rec)
  have len: "length two_pages = 2" by (simp add: two_pages_def)
  show ?thesis
    unfolding gather_pages_def len up
    by (simp add: two_pages_first two_pages_second)
qed

lemma two_pages_response:
  "final_response no_str_numbers two_pages =
     Inr \<lparr>num_pages = 2,
          response_pages =
            [\<lparr>page_index = 0, doc_type = ''TaxInvoice'', confidence = Finite 0,
               brief_summary = None, key_hints = None\<rparr>,
             \<lparr>page_index = 1, doc_type = ''TaxInvoice'', confidence = Finite 0,
               brief_summary = None, key_hints = None\<rparr>],
          response_groups =
            [\<lparr>group_type = ''TaxInvoice'', page_spans = [[0, 1]],
               data = [(''items'', JList [JInt 1, JInt 2]),
                       (''pages_used'', JList [JInt 0, JInt 1])]\<rparr>]\<rparr>"
proof -
  have len: "length two_pages = 2" by (simp add: two_pages_def)
  show ?thesis
    by (simp add: final_response_def page_results_def extraction_data_per_page_def
        two_pages_gather len
        grouped_results_def chunk_consecutive_by_type_def bind_err_def
        combine_group_def pages_flat_def merge_page_def py_position_def resolve_def
        cell_of_def extend_page_list_def page_list_def)
qed

lemma two_pages_concurrent:
  "ocr_stream_concurrent no_str_numbers two_pages [1, 0] None =
     [Start 2,
      Page_result 1
        \<lparr>page_index = 1, doc_type = ''TaxInvoice'', confidence = Finite 0,
          brief_summary = None, key_hints = None\<rparr>
        (JObj [(''items'', JList [JInt 2]), (''pages_used'', JList [JInt 1])]),
      Page_result 0
        \<lparr>page_index = 0, doc_type = ''TaxInvoice'', confidence = Finite 0,
          brief_summary = None, key_hints = None\<rparr>
        (JObj [(''items'', JList [JInt 1]), (''pages_used'', JList [JInt 0])]),
      Complete_counts 2 2]"
proof -
  have len: "length two_pages = 2" by (simp add: two_pages_def)
  have r: "replicate 2 None = [None, None]" by (simp add: numeral_2_eq_2)
  show ?thesis
    unfolding ocr_stream_concurrent_def len
    by (simp add: process_single_page_def two_pages_first two_pages_second
        successful_pages_def r)
qed

text \<open>A two-page invoice through both endpoints, the second page reported first by the
  concurrent one; and an upload that cannot be read.\<close>

theorem stream_endings_witness:
  "invalid_pdf (Rendered two_pages) = False \<and>
   mset [1, 0] = mset [0..<length two_pages] \<and>
   last (ocr_stream_sequential no_str_numbers (Rendered two_pages)) = Done \<and>
   last (butlast (ocr_stream_sequential no_str_numbers (Rendered two_pages))) =
     Complete_data
       \<lparr>num_pages = 2,
        response_pages =
          [\<lparr>page_index = 0, doc_type = ''TaxInvoice'', confidence = Finite 0,
             brief_summary = None, key_hints = None\<rparr>,
           \<lparr>page_index = 1, doc_type = ''TaxInvoice'', confidence = Finite 0,
             brief_summary = None, key_hints = None\<rparr>],
        response_groups =
          [\<lparr>group_type = ''TaxInvoice'', page_spans = [[0, 1]],
             data = [(''items'', JList [JInt 1, JInt 2]),
                     (''pages_used'', JList [JInt 0, JInt 1])]\<rparr>]\<rparr> \<and>
   last (ocr_stream_sequential no_str_numbers (Read_fails ValueError)) = Done \<and>
   last (butlast (ocr_stream_sequential no_str_numbers (Read_fails ValueError))) = Error ValueError \<and>
   last (ocr_stream_concurrent no_str_numbers two_pages [1, 0] None) = Complete_counts 2 2 \<and>
   Done \<notin> set (ocr_stream_concurrent no_str_numbers two_pages [1, 0] None)"
proof -
  have up: "[0..<2] = [0, 1]" by (simp add: upt_rec)
  have len: "length two_pages = 2" by (simp add: two_pages_def)
  have h1: "\<not> invalid_pdf (Rendered two_pages)" and h1': "\<not> invalid_pdf (Read_fails ValueError)"
    by simp_all
  have h2: "mset [1, 0] = mset [0..<length two_pages]" by (simp add: len up)
  have c: "closing_event no_str_numbers (Rendered two_pages) =
     Complete_data
       \<lparr>num_pages = 2,
        response_pages =
          [\<lparr>page_index = 0, doc_type = ''TaxInvoice'', confidence = Finite 0,
             brief_summary = None, key_hints = None\<rparr>,
           \<lparr>page_index = 1, doc_type = ''TaxInvoice'', confidence = Finite 0,
             brief_summary = None, key_hints = None\<rparr>],
        response_groups =
          [\<lparr>group_type = ''TaxInvoice'', page_spans = [[0, 1]],
             data = [(''items'', JList [JInt 1, JInt 2]),
                     (''pages_used'', JList [JInt 0, JInt 1])]\<rparr>]\<rparr>"
    by (simp add: two_pages_response)
  have s: "last (ocr_stream_sequential no_str_numbers (Rendered two_pages)) = Done \<and>
           last (butlast (ocr_stream_sequential no_str_numbers (Rendered two_pages))) =
             closing_event no_str_numbers (Rendered two_pages) \<and>
           last (ocr_stream_concurrent no_str_numbers two_pages [1, 0] None) = Complete_counts 2 2 \<and>
           Done \<notin> set (ocr_stream_concurrent no_str_numbers two_pages [1, 0] None)"
    using stream_endings[OF h1 h2, of no_str_numbers None]
    by (auto simp: butlast_append concurrent_closing_event_def len)
  have s': "last (ocr_stream_sequential no_str_numbers (Read_fails ValueError)) = Done \<and>
           last (butlast (ocr_stream_sequential no_str_numbers (Read_fails ValueError))) =
             Error ValueError"
    using stream_endings[OF h1' h2, of no_str_numbers None]
    by (auto simp: butlast_append)
  show ?thesis using h2 c s s' by simp
qed

text \<open>Claim C8 as stated fails for the concurrent endpoint: its stream for the two-page
  invoice ends with the counts, holds neither the merged documents nor a sentinel, and
  its error event is the last event as well.\<close>

theorem concurrent_stream_counterexample:
  "ocr_stream_concurrent no_str_numbers two_pages [1, 0] None =
     [Start 2,
      Page_result 1
        \<lparr>page_index = 1, doc_type = ''TaxInvoice'', confidence = Finite 0,
          brief_summary = None, key_hints = None\<rparr>
        (JObj [(''items'', JList [JInt 2]), (''pages_used'', JList [JInt 1])]),
      Page_result 0
        \<lparr>page_index = 0, doc_type = ''TaxInvoice'', confidence = Finite 0,
          brief_summary = None, key_hints = None\<rparr>
        (JObj [(''items'', JList [JInt 1]), (''pages_used'', JList [JInt 0])]),
      Complete_counts 2 2] \<and>
   Done \<notin> set (ocr_stream_concurrent no_str_numbers two_pages [1, 0] None) \<and>
   closing_event no_str_numbers (Rendered two_pages)
     \<notin> set (ocr_stream_concurrent no_str_numbers two_pages [1, 0] None) \<and>
   ocr_stream_concurrent no_str_numbers two_pages [1, 0] (Some (1, ValueError)) =
     [Start 2,
      Page_result 1
        \<lparr>page_index = 1, doc_type = ''TaxInvoice'', confidence = Finite 0,
          brief_summary = None, key_hints = None\<rparr>
        (JObj [(''items'', JList [JInt 2]), (''pages_used'', JList [JInt 1])]),
      Error ValueError]"
proof -
  have len: "length two_pages = 2" by (simp add: two_pages_def)
  have e: "ocr_stream_concurrent no_str_numbers two_pages [1, 0] (Some (1, ValueError)) =
     [Start 2,
      Page_result 1
        \<lparr>page_index = 1, doc_type = ''TaxInvoice'', confidence = Finite 0,
          brief_summary = None, key_hints = None\<rparr>
        (JObj [(''items'', JList [JInt 2]), (''pages_used'', JList [JInt 1])]),
      Error ValueError]"
    unfolding ocr_stream_concurrent_def len
    by (simp add: process_single_page_def two_pages_second)
  show ?thesis
    unfolding two_pages_concurrent e
    by (simp add: two_pages_response)
qed

text \<open>The upload left out above: when \<^verbatim>\<open>fitz.open\<close> raises, the sequential generator
  yields an \<^verbatim>\<open>error\<close> event from the inner handler and returns, with no sentinel.\<close>

lemma invalid_pdf_stream:
  "ocr_stream_sequential b (Open_fails e) = [Status Started, Error e]"
  by (simp add: ocr_stream_sequential_def)

end
